theory Spec2Isabelle
  imports Main "HOL-Library.Monad_Syntax"
begin

section \<open>Objects and the store\<close>

text \<open>
  The directory tree of \<^verbatim>\<open>DirInfo.cpp\<close> is a pointer structure: every object holds a parent
  pointer, a sibling pointer and (for directories) a first-child and a dot-entry pointer.
  Objects live in a store that maps addresses to objects; the null pointer is \<open>None\<close>.
  A private member \<^verbatim>\<open>_x\<close> of the C++ classes is the record field \<open>m_x\<close>; the methods keep
  their names.

  The integer members (\<^verbatim>\<open>KFileSize\<close>, \<^verbatim>\<open>int\<close>, \<^verbatim>\<open>time_t\<close>) are signed; signed overflow is
  undefined in C++, so they are mathematical integers here and every statement below is about
  executions that stay inside the range of the machine types.
\<close>

type_synonym addr = nat

datatype KDirReadState = KDirQueued | KDirReading | KDirFinished | KDirAborted

text \<open>The file type bits of \<^verbatim>\<open>_mode\<close>, as far as \<^verbatim>\<open>isDir()\<close> and \<^verbatim>\<open>isFile()\<close> look at them.\<close>

datatype ftype = Directory | Regular | Other

text \<open>
  One record holds the members of \<^verbatim>\<open>FileInfo\<close> (first block) and those that \<^verbatim>\<open>DirInfo\<close>
  adds (second block). \<open>isDirInfo\<close> is the dynamic class of the object: what
  \<^verbatim>\<open>dynamic_cast<KDirInfo *>\<close> tests and what virtual dispatch follows. An object that is not a
  \<^verbatim>\<open>DirInfo\<close> never has its second block read.
\<close>

record node =
  m_name :: string
  m_parent :: "addr option"
  m_next :: "addr option"
  m_mode :: ftype
  m_size :: int
  m_blocks :: int
  m_mtime :: int
  isDirInfo :: bool
  m_isDotEntry :: bool
  m_pendingReadJobs :: int
  m_dotEntry :: "addr option"
  m_firstChild :: "addr option"
  m_totalSize :: int
  m_totalBlocks :: int
  m_totalItems :: int
  m_totalSubDirs :: int
  m_totalFiles :: int
  m_latestMtime :: int
  m_isMountPoint :: bool
  m_isExcluded :: bool
  m_summaryDirty :: bool
  m_beingDestroyed :: bool
  m_readState :: KDirReadState

text \<open>The two messages \<^verbatim>\<open>unlinkChild\<close> writes to \<^verbatim>\<open>logError()\<close>: the child and the directory.\<close>

datatype diag = NotAChild addr addr | CouldntUnlink addr addr

text \<open>
  The program state: the store, what has been written to \<^verbatim>\<open>logError()\<close>, the
  \<^verbatim>\<open>sendFinalizeLocal\<close> notifications received by the tree, and a trace of the objects
  \<^verbatim>\<open>recalc()\<close> has been entered on (the line the \<^verbatim>\<open>logDebug()\<close> call at its head would
  print). Nothing ever reads the trace; it exists to state how often \<^verbatim>\<open>recalc()\<close> runs.
\<close>

record state =
  heap :: "addr \<Rightarrow> node option"
  errors :: "diag list"
  finalizeLocal_sent :: "addr list"
  recalc_calls :: "addr list"

definition upd :: "addr \<Rightarrow> (node \<Rightarrow> node) \<Rightarrow> state \<Rightarrow> state" where
  "upd a f s = s\<lparr>heap := (heap s)(a := map_option f (heap s a))\<rparr>"

definition free :: "addr \<Rightarrow> state \<Rightarrow> state" where
  "free a s = s\<lparr>heap := (heap s)(a := None)\<rparr>"

text \<open>
  Modelled from the spec: \<^verbatim>\<open>FileInfo\<close> is declared outside \<^verbatim>\<open>DirInfo.cpp\<close>. The spec's entry
  contract is storage only: type predicates on the type tag, and for an entry that is not a
  directory node the subtree is the entry itself, so its virtual summary accessors return its
  own size, blocks and mtime and count nothing.
\<close>

definition isDir :: "node \<Rightarrow> bool" where
  "isDir n = (m_mode n = Directory)"

definition isFile :: "node \<Rightarrow> bool" where
  "isFile n = (m_mode n = Regular)"

section \<open>Construction\<close>

definition init :: "node \<Rightarrow> node" where
  "init n = n
     \<lparr> m_isDotEntry := False,
       m_pendingReadJobs := 0,
       m_dotEntry := None,
       m_firstChild := None,
       m_totalSize := m_size n,
       m_totalBlocks := m_blocks n,
       m_totalItems := 0,
       m_totalSubDirs := 0,
       m_totalFiles := 0,
       m_latestMtime := m_mtime n,
       m_isMountPoint := False,
       m_isExcluded := False,
       m_summaryDirty := False,
       m_beingDestroyed := False,
       m_readState := KDirQueued \<rparr>"

text \<open>
  Modelled from the spec: the \<^verbatim>\<open>FileInfo\<close> constructors are not in \<^verbatim>\<open>DirInfo.cpp\<close>. They store
  name, type, size, blocks and mtime and record the parent; the new entry has no sibling yet.
  The members of the second block are given the values \<open>init\<close> would give them.
\<close>

definition FileInfo_new :: "string \<Rightarrow> ftype \<Rightarrow> int \<Rightarrow> int \<Rightarrow> int \<Rightarrow> addr option \<Rightarrow> node" where
  "FileInfo_new nm md sz bl mt par =
     \<lparr> m_name = nm, m_parent = par, m_next = None, m_mode = md,
       m_size = sz, m_blocks = bl, m_mtime = mt,
       isDirInfo = False, m_isDotEntry = False, m_pendingReadJobs = 0,
       m_dotEntry = None, m_firstChild = None,
       m_totalSize = sz, m_totalBlocks = bl, m_totalItems = 0, m_totalSubDirs = 0,
       m_totalFiles = 0, m_latestMtime = mt,
       m_isMountPoint = False, m_isExcluded = False, m_summaryDirty = False,
       m_beingDestroyed = False, m_readState = KDirQueued \<rparr>"

text \<open>
  \<^verbatim>\<open>DirInfo(tree, parent, asDotEntry = true)\<close>: the object built on the base part \<open>fi\<close>.
\<close>

definition DirInfo_asDotEntry :: "node \<Rightarrow> node" where
  "DirInfo_asDotEntry fi =
     (init (fi\<lparr>isDirInfo := True\<rparr>))\<lparr> m_isDotEntry := True, m_dotEntry := None, m_name := ''.'' \<rparr>"

text \<open>
  The other constructors (and the first with \<^verbatim>\<open>asDotEntry = false\<close>): the object is built on
  the base part \<open>fi\<close> at address \<open>this\<close>, and its dot entry is allocated at \<open>d\<close> with \<open>this\<close>
  as parent.
\<close>

definition DirInfo_new :: "addr \<Rightarrow> addr \<Rightarrow> node \<Rightarrow> state \<Rightarrow> state" where
  "DirInfo_new this d fi s =
     (let s1 = s\<lparr>heap := (heap s)(this \<mapsto> (init (fi\<lparr>isDirInfo := True\<rparr>))\<lparr>m_isDotEntry := False\<rparr>)\<rparr>;
          s2 = s1\<lparr>heap := (heap s1)(d \<mapsto> DirInfo_asDotEntry (FileInfo_new [] Other 0 0 0 (Some this)))\<rparr>
      in upd this (\<lambda>n. n\<lparr>m_dotEntry := Some d\<rparr>) s2)"

section \<open>Lists in the store\<close>

text \<open>
  The list reached from a pointer by following one pointer field until null: the children
  list follows \<^verbatim>\<open>_next\<close> from \<^verbatim>\<open>_firstChild\<close>, the ancestors follow \<^verbatim>\<open>_parent\<close>. A list that
  runs into a cycle, or into an address without object, has no value.
\<close>

partial_function (option) follow ::
  "(node \<Rightarrow> addr option) \<Rightarrow> state \<Rightarrow> addr option \<Rightarrow> addr list option" where
  "follow fld s p =
     (case p of
        None \<Rightarrow> Some []
      | Some c \<Rightarrow> do {
          n \<leftarrow> heap s c;
          cs \<leftarrow> follow fld s (fld n);
          Some (c # cs)
        })"

definition children :: "state \<Rightarrow> addr \<Rightarrow> addr list option" where
  "children s a = do { n \<leftarrow> heap s a; follow m_next s (m_firstChild n) }"

definition ancestors :: "state \<Rightarrow> addr \<Rightarrow> addr list option" where
  "ancestors s a = do { n \<leftarrow> heap s a; follow m_parent s (m_parent n) }"

section \<open>Read state and read jobs\<close>

definition setReadState :: "KDirReadState \<Rightarrow> node \<Rightarrow> node" where
  "setReadState newReadState n =
     (if m_readState n = KDirAborted \<and> newReadState = KDirFinished then n
      else n\<lparr>m_readState := newReadState\<rparr>)"

partial_function (option) readState :: "state \<Rightarrow> addr \<Rightarrow> KDirReadState option" where
  "readState s this = do {
     n \<leftarrow> heap s this;
     (case m_parent n of
        Some p \<Rightarrow> if m_isDotEntry n then readState s p else Some (m_readState n)
      | None \<Rightarrow> Some (m_readState n))
   }"

definition isBusy :: "state \<Rightarrow> addr \<Rightarrow> bool option" where
  "isBusy s this = do {
     n \<leftarrow> heap s this;
     if m_pendingReadJobs n > 0 \<and> m_readState n \<noteq> KDirAborted then Some True
     else do {
       r1 \<leftarrow> readState s this;
       if r1 = KDirReading then Some True
       else do {
         r2 \<leftarrow> readState s this;
         if r2 = KDirQueued then Some True else Some False
       }
     }
   }"

definition isFinished :: "state \<Rightarrow> addr \<Rightarrow> bool option" where
  "isFinished s this = map_option Not (isBusy s this)"

partial_function (option) readJobAdded :: "state \<Rightarrow> addr \<Rightarrow> state option" where
  "readJobAdded s this = do {
     n \<leftarrow> heap s this;
     let s1 = upd this (\<lambda>x. x\<lparr>m_pendingReadJobs := m_pendingReadJobs x + 1\<rparr>) s;
     (case m_parent n of
        Some p \<Rightarrow> readJobAdded s1 p
      | None \<Rightarrow> Some s1)
   }"

partial_function (option) readJobFinished :: "state \<Rightarrow> addr \<Rightarrow> state option" where
  "readJobFinished s this = do {
     n \<leftarrow> heap s this;
     let s1 = upd this (\<lambda>x. x\<lparr>m_pendingReadJobs := m_pendingReadJobs x - 1\<rparr>) s;
     (case m_parent n of
        Some p \<Rightarrow> readJobFinished s1 p
      | None \<Rightarrow> Some s1)
   }"

partial_function (option) readJobAborted :: "state \<Rightarrow> addr \<Rightarrow> state option" where
  "readJobAborted s this = do {
     n \<leftarrow> heap s this;
     let s1 = upd this (\<lambda>x. x\<lparr>m_readState := KDirAborted\<rparr>) s;
     (case m_parent n of
        Some p \<Rightarrow> readJobAborted s1 p
      | None \<Rightarrow> Some s1)
   }"

section \<open>Insertion\<close>

text \<open>The update \<^verbatim>\<open>childAdded\<close> applies to a clean summary, for the new child \<open>c\<close>.\<close>

definition add_child :: "node \<Rightarrow> node \<Rightarrow> node" where
  "add_child c n = n
     \<lparr> m_totalSize := m_totalSize n + m_size c,
       m_totalBlocks := m_totalBlocks n + m_blocks c,
       m_totalItems := m_totalItems n + 1,
       m_totalSubDirs := (if isDir c then m_totalSubDirs n + 1 else m_totalSubDirs n),
       m_totalFiles := (if isFile c then m_totalFiles n + 1 else m_totalFiles n),
       m_latestMtime := (if m_mtime c > m_latestMtime n then m_mtime c else m_latestMtime n) \<rparr>"

partial_function (option) childAdded :: "state \<Rightarrow> addr \<Rightarrow> addr \<Rightarrow> state option" where
  "childAdded s this newChild = do {
     n \<leftarrow> heap s this;
     s1 \<leftarrow> (if \<not> m_summaryDirty n
            then do { c \<leftarrow> heap s newChild; Some (upd this (add_child c) s) }
            else Some s);
     (case m_parent n of
        Some p \<Rightarrow> childAdded s1 p newChild
      | None \<Rightarrow> Some s1)
   }"

text \<open>
  \<^verbatim>\<open>insertChild\<close>. The argument is an address, so the \<^verbatim>\<open>CHECK_PTR\<close> on a null argument has
  no counterpart. \<open>link_child\<close> is the three assignments of the first branch.
\<close>

definition link_child :: "addr \<Rightarrow> addr \<Rightarrow> state \<Rightarrow> state" where
  "link_child this newChild s =
     (let first = (case heap s this of Some n \<Rightarrow> m_firstChild n | None \<Rightarrow> None);
          s1 = upd newChild (\<lambda>x. x\<lparr>m_next := first\<rparr>) s;
          s2 = upd this (\<lambda>x. x\<lparr>m_firstChild := Some newChild\<rparr>) s1
      in upd newChild (\<lambda>x. x\<lparr>m_parent := Some this\<rparr>) s2)"

partial_function (option) insertChild :: "state \<Rightarrow> addr \<Rightarrow> addr \<Rightarrow> state option" where
  "insertChild s this newChild = do {
     n \<leftarrow> heap s this;
     c \<leftarrow> heap s newChild;
     if isDir c \<or> m_dotEntry n = None \<or> m_isDotEntry n
     then childAdded (link_child this newChild s) this newChild
     else (case m_dotEntry n of
             Some d \<Rightarrow> insertChild s d newChild
           | None \<Rightarrow> None)
   }"

section \<open>Deletion\<close>

text \<open>\<open>unlink_scan s this deletedChild child\<close> is the loop of \<^verbatim>\<open>unlinkChild\<close> from its head, with
  the loop variable \<open>child\<close>.\<close>

partial_function (option) unlink_scan :: "state \<Rightarrow> addr \<Rightarrow> addr \<Rightarrow> addr option \<Rightarrow> state option" where
  "unlink_scan s this deletedChild child =
     (let cur = child in
      case cur of
        None \<Rightarrow> Some (s\<lparr>errors := errors s @ [CouldntUnlink deletedChild this]\<rparr>)
      | Some ch \<Rightarrow> do {
          chn \<leftarrow> heap s ch;
          if m_next chn = Some deletedChild
          then do {
            c \<leftarrow> heap s deletedChild;
            Some (upd ch (\<lambda>y. y\<lparr>m_next := m_next c\<rparr>) s)
          }
          else unlink_scan s this deletedChild (m_next chn)
        })"

definition unlinkChild :: "state \<Rightarrow> addr \<Rightarrow> addr \<Rightarrow> state option" where
  "unlinkChild s this deletedChild = do {
     c \<leftarrow> heap s deletedChild;
     if m_parent c \<noteq> Some this
     then Some (s\<lparr>errors := errors s @ [NotAChild deletedChild this]\<rparr>)
     else do {
       n \<leftarrow> heap s this;
       if Some deletedChild = m_firstChild n
       then Some (upd this (\<lambda>x. x\<lparr>m_firstChild := m_next c\<rparr>) s)
       else unlink_scan s this deletedChild (m_firstChild n)
     }
   }"

partial_function (option) deletingChild :: "state \<Rightarrow> addr \<Rightarrow> addr \<Rightarrow> state option" where
  "deletingChild s this deletedChild = do {
     n \<leftarrow> heap s this;
     let s1 = upd this (\<lambda>x. x\<lparr>m_summaryDirty := True\<rparr>) s;
     s2 \<leftarrow> (case m_parent n of
             Some p \<Rightarrow> deletingChild s1 p deletedChild
           | None \<Rightarrow> Some s1);
     n2 \<leftarrow> heap s2 this;
     if m_beingDestroyed n2 then Some s2
     else do {
       c \<leftarrow> heap s2 deletedChild;
       if m_parent c = Some this then unlinkChild s2 this deletedChild else Some s2
     }
   }"

section \<open>Summaries\<close>

text \<open>
  Modelled from the spec: \<^verbatim>\<open>FileInfoIterator\<close> is not in \<^verbatim>\<open>DirInfo.cpp\<close>. In the spec,
  \<^verbatim>\<open>recalc()\<close> uses ``a traversal mode that treats the dot-entry's children as if directly
  present'': the iterator yields the direct children and then the children of the dot entry;
  the dot entry itself is not yielded. The iterator is the list of what it yields;
  \<^verbatim>\<open>recalc()\<close> assigns to no pointer member, so the list does not change while it is walked.
\<close>

definition FileInfoIterator :: "state \<Rightarrow> addr \<Rightarrow> addr list option" where
  "FileInfoIterator s parent = do {
     cs \<leftarrow> children s parent;
     n \<leftarrow> heap s parent;
     ds \<leftarrow> (case m_dotEntry n of None \<Rightarrow> Some [] | Some d \<Rightarrow> children s d);
     Some (cs @ ds)
   }"

datatype summary = TotalSize | TotalBlocks | TotalItems | TotalSubDirs | TotalFiles | LatestMtime

text \<open>The member a \<^verbatim>\<open>DirInfo\<close> accessor returns, and what the same accessor of a plain
  \<^verbatim>\<open>FileInfo\<close> returns (see above).\<close>

fun cached :: "summary \<Rightarrow> node \<Rightarrow> int" where
  "cached TotalSize n = m_totalSize n"
| "cached TotalBlocks n = m_totalBlocks n"
| "cached TotalItems n = m_totalItems n"
| "cached TotalSubDirs n = m_totalSubDirs n"
| "cached TotalFiles n = m_totalFiles n"
| "cached LatestMtime n = m_latestMtime n"

fun own :: "summary \<Rightarrow> node \<Rightarrow> int" where
  "own TotalSize n = m_size n"
| "own TotalBlocks n = m_blocks n"
| "own TotalItems n = 0"
| "own TotalSubDirs n = 0"
| "own TotalFiles n = 0"
| "own LatestMtime n = m_mtime n"

definition reset_summary :: "node \<Rightarrow> node" where
  "reset_summary n = n
     \<lparr> m_totalSize := m_size n,
       m_totalBlocks := m_blocks n,
       m_totalItems := 0,
       m_totalSubDirs := 0,
       m_totalFiles := 0,
       m_latestMtime := m_mtime n \<rparr>"

text \<open>
  \<^verbatim>\<open>recalc()\<close> calls the virtual accessors of the children, and the accessors of a directory
  call \<^verbatim>\<open>recalc()\<close>: one recursive function runs all three, told by its first argument which
  code it is in. \<open>Accessor f this\<close> is the accessor for summary \<open>f\<close>; \<open>Recalc this\<close> is
  \<^verbatim>\<open>recalc()\<close> from its head; \<open>RecalcLoop this its\<close> is \<^verbatim>\<open>recalc()\<close> from the head of its loop
  with \<open>its\<close> still to come from the iterator. The number returned is the accessor's result
  (0 for the other two).
\<close>

datatype call = Accessor summary addr | Recalc addr | RecalcLoop addr "addr list"

partial_function (option) exec :: "call \<Rightarrow> state \<Rightarrow> (int \<times> state) option" where
  "exec c s =
     (case c of
        Accessor f this \<Rightarrow> do {
          n \<leftarrow> heap s this;
          if \<not> isDirInfo n then Some (own f n, s)
          else do {
            s1 \<leftarrow> (if m_summaryDirty n
                   then do { (_, s') \<leftarrow> exec (Recalc this) s; Some s' }
                   else Some s);
            n1 \<leftarrow> heap s1 this;
            Some (cached f n1, s1)
          }
        }
      | Recalc this \<Rightarrow> do {
          let s0 = upd this reset_summary (s\<lparr>recalc_calls := recalc_calls s @ [this]\<rparr>);
          its \<leftarrow> FileInfoIterator s0 this;
          exec (RecalcLoop this its) s0
        }
      | RecalcLoop this its \<Rightarrow>
          (case its of
             [] \<Rightarrow> Some (0, upd this (\<lambda>x. x\<lparr>m_summaryDirty := False\<rparr>) s)
           | it # rest \<Rightarrow> do {
               (v1, s1) \<leftarrow> exec (Accessor TotalSize it) s;
               let s1 = upd this (\<lambda>x. x\<lparr>m_totalSize := m_totalSize x + v1\<rparr>) s1;
               (v2, s2) \<leftarrow> exec (Accessor TotalBlocks it) s1;
               let s2 = upd this (\<lambda>x. x\<lparr>m_totalBlocks := m_totalBlocks x + v2\<rparr>) s2;
               (v3, s3) \<leftarrow> exec (Accessor TotalItems it) s2;
               let s3 = upd this (\<lambda>x. x\<lparr>m_totalItems := m_totalItems x + (v3 + 1)\<rparr>) s3;
               (v4, s4) \<leftarrow> exec (Accessor TotalSubDirs it) s3;
               let s4 = upd this (\<lambda>x. x\<lparr>m_totalSubDirs := m_totalSubDirs x + v4\<rparr>) s4;
               (v5, s5) \<leftarrow> exec (Accessor TotalFiles it) s4;
               let s5 = upd this (\<lambda>x. x\<lparr>m_totalFiles := m_totalFiles x + v5\<rparr>) s5;
               c \<leftarrow> heap s5 it;
               let s6 = (if isDir c
                         then upd this (\<lambda>x. x\<lparr>m_totalSubDirs := m_totalSubDirs x + 1\<rparr>) s5
                         else s5);
               c' \<leftarrow> heap s6 it;
               let s7 = (if isFile c'
                         then upd this (\<lambda>x. x\<lparr>m_totalFiles := m_totalFiles x + 1\<rparr>) s6
                         else s6);
               (childLatestMtime, s8) \<leftarrow> exec (Accessor LatestMtime it) s7;
               n \<leftarrow> heap s8 this;
               let s9 = (if childLatestMtime > m_latestMtime n
                         then upd this (\<lambda>x. x\<lparr>m_latestMtime := childLatestMtime\<rparr>) s8
                         else s8);
               exec (RecalcLoop this rest) s9
             }))"

definition recalc :: "state \<Rightarrow> addr \<Rightarrow> state option" where
  "recalc s this = map_option snd (exec (Recalc this) s)"

definition setMountPoint :: "bool \<Rightarrow> node \<Rightarrow> node" where
  "setMountPoint isMountPoint n = n\<lparr>m_isMountPoint := isMountPoint\<rparr>"

definition totalSize :: "state \<Rightarrow> addr \<Rightarrow> (int \<times> state) option" where
  "totalSize s this = exec (Accessor TotalSize this) s"

definition totalBlocks :: "state \<Rightarrow> addr \<Rightarrow> (int \<times> state) option" where
  "totalBlocks s this = exec (Accessor TotalBlocks this) s"

definition totalItems :: "state \<Rightarrow> addr \<Rightarrow> (int \<times> state) option" where
  "totalItems s this = exec (Accessor TotalItems this) s"

definition totalSubDirs :: "state \<Rightarrow> addr \<Rightarrow> (int \<times> state) option" where
  "totalSubDirs s this = exec (Accessor TotalSubDirs this) s"

definition totalFiles :: "state \<Rightarrow> addr \<Rightarrow> (int \<times> state) option" where
  "totalFiles s this = exec (Accessor TotalFiles this) s"

definition latestMtime :: "state \<Rightarrow> addr \<Rightarrow> (int \<times> state) option" where
  "latestMtime s this = exec (Accessor LatestMtime this) s"

section \<open>Destruction and the finalize pass\<close>

text \<open>
  \<^verbatim>\<open>delete\<close> runs the virtual destructor and frees the object. \<open>destroy_from s this child\<close> is
  the destructor of \<^verbatim>\<open>DirInfo\<close> from the head of its loop. Modelled from the spec: the
  destructor of \<^verbatim>\<open>FileInfo\<close> is not in \<^verbatim>\<open>DirInfo.cpp\<close>; an entry is storage only, so it does
  nothing before the object is freed.
\<close>

partial_function (option) destroy_from :: "state \<Rightarrow> addr \<Rightarrow> addr option \<Rightarrow> state option" where
  "destroy_from s this child =
     (case child of
        Some c \<Rightarrow> do {
          cn \<leftarrow> heap s c;
          let nextChild = m_next cn;
          s1 \<leftarrow> (if isDirInfo cn
                 then destroy_from (upd c (\<lambda>x. x\<lparr>m_beingDestroyed := True\<rparr>) s) c (m_firstChild cn)
                 else Some (free c s));
          destroy_from s1 this nextChild
        }
      | None \<Rightarrow> do {
          n \<leftarrow> heap s this;
          s1 \<leftarrow> (case m_dotEntry n of
                   Some d \<Rightarrow> do {
                     dn \<leftarrow> heap s d;
                     if isDirInfo dn
                     then destroy_from (upd d (\<lambda>x. x\<lparr>m_beingDestroyed := True\<rparr>) s) d (m_firstChild dn)
                     else Some (free d s)
                   }
                 | None \<Rightarrow> Some s);
          Some (free this s1)
        })"

definition delete_obj :: "state \<Rightarrow> addr \<Rightarrow> state option" where
  "delete_obj s a = do {
     n \<leftarrow> heap s a;
     if isDirInfo n
     then destroy_from (upd a (\<lambda>x. x\<lparr>m_beingDestroyed := True\<rparr>) s) a (m_firstChild n)
     else Some (free a s)
   }"

partial_function (option) reparent_loop :: "state \<Rightarrow> addr \<Rightarrow> addr option \<Rightarrow> state option" where
  "reparent_loop s this child =
     (case child of
        None \<Rightarrow> Some s
      | Some c \<Rightarrow> do {
          cn \<leftarrow> heap s c;
          reparent_loop (upd c (\<lambda>x. x\<lparr>m_parent := Some this\<rparr>) s) this (m_next cn)
        })"

definition cleanupDotEntries :: "state \<Rightarrow> addr \<Rightarrow> state option" where
  "cleanupDotEntries s this = do {
     n \<leftarrow> heap s this;
     (case m_dotEntry n of
        None \<Rightarrow> Some s
      | Some d \<Rightarrow>
          if m_isDotEntry n then Some s
          else do {
            s1 \<leftarrow> (if m_firstChild n = None
                   then do {
                     dn \<leftarrow> heap s d;
                     let child = m_firstChild dn;
                     let sa = upd this (\<lambda>x. x\<lparr>m_firstChild := child\<rparr>) s;
                     let sb = upd d (\<lambda>x. x\<lparr>m_firstChild := None\<rparr>) sa;
                     reparent_loop sb this child
                   }
                   else Some s);
            dn1 \<leftarrow> heap s1 d;
            if m_firstChild dn1 = None
            then do {
              s2 \<leftarrow> delete_obj s1 d;
              _ \<leftarrow> heap s2 this;
              Some (upd this (\<lambda>x. x\<lparr>m_dotEntry := None\<rparr>) s2)
            }
            else Some s1
          })
   }"

definition finalizeLocal :: "state \<Rightarrow> addr \<Rightarrow> state option" where
  "finalizeLocal s this = cleanupDotEntries s this"

text \<open>
  \<open>finalizeAll_from s this child\<close> is \<^verbatim>\<open>finalizeAll()\<close> from the head of its loop. The call
  \<^verbatim>\<open>dir->finalizeAll()\<close> is made on a directory that is no dot entry, so it starts at its own
  loop head.
\<close>

partial_function (option) finalizeAll_from :: "state \<Rightarrow> addr \<Rightarrow> addr option \<Rightarrow> state option" where
  "finalizeAll_from s this child =
     (case child of
        Some c \<Rightarrow> do {
          cn \<leftarrow> heap s c;
          s1 \<leftarrow> (if isDirInfo cn \<and> \<not> m_isDotEntry cn
                 then finalizeAll_from s c (m_firstChild cn)
                 else Some s);
          cn1 \<leftarrow> heap s1 c;
          finalizeAll_from s1 this (m_next cn1)
        }
      | None \<Rightarrow> finalizeLocal (s\<lparr>finalizeLocal_sent := finalizeLocal_sent s @ [this]\<rparr>) this)"

definition finalizeAll :: "state \<Rightarrow> addr \<Rightarrow> state option" where
  "finalizeAll s this = do {
     n \<leftarrow> heap s this;
     if m_isDotEntry n then Some s else finalizeAll_from s this (m_firstChild n)
   }"

section \<open>Notions used to state the properties\<close>

definition empty_state :: state where
  "empty_state = \<lparr>heap = (\<lambda>_. None), errors = [], finalizeLocal_sent = [], recalc_calls = []\<rparr>"

text \<open>The same update applied to every object of a list of addresses.\<close>

definition upd_each :: "addr list \<Rightarrow> (node \<Rightarrow> node) \<Rightarrow> state \<Rightarrow> state" where
  "upd_each xs f s =
     s\<lparr>heap := (\<lambda>x. if x \<in> set xs then map_option f (heap s x) else heap s x)\<rparr>"

text \<open>
  The busy condition in the words of the specification, with the read state taken from the
  accessor \<^verbatim>\<open>readState()\<close> in both places.
\<close>

definition isBusy_claimed :: "state \<Rightarrow> addr \<Rightarrow> bool option" where
  "isBusy_claimed s this = do {
     n \<leftarrow> heap s this;
     r \<leftarrow> readState s this;
     Some ((m_pendingReadJobs n > 0 \<and> r \<noteq> KDirAborted) \<or> r = KDirReading \<or> r = KDirQueued)
   }"

text \<open>A sequence of read-job events, each on some directory.\<close>

datatype job_event = Added | Finished

fun run_jobs :: "state \<Rightarrow> (job_event \<times> addr) list \<Rightarrow> state option" where
  "run_jobs s [] = Some s"
| "run_jobs s ((Added, b) # evs) = readJobAdded s b \<bind> (\<lambda>s'. run_jobs s' evs)"
| "run_jobs s ((Finished, b) # evs) = readJobFinished s b \<bind> (\<lambda>s'. run_jobs s' evs)"

text \<open>An event on \<open>b\<close> is attributed to \<open>x\<close> when \<open>x\<close> is \<open>b\<close> or one of its ancestors.\<close>

definition on_path :: "state \<Rightarrow> addr \<Rightarrow> addr \<Rightarrow> bool" where
  "on_path s x b = (case ancestors s b of Some ps \<Rightarrow> x \<in> set (b # ps) | None \<Rightarrow> False)"

definition attributed :: "state \<Rightarrow> addr \<Rightarrow> job_event \<Rightarrow> (job_event \<times> addr) list \<Rightarrow> int" where
  "attributed s x k evs = int (length (filter (\<lambda>e. fst e = k \<and> on_path s x (snd e)) evs))"

subsection \<open>Example states\<close>

text \<open>A directory at address 2 with its dot entry at address 3, as the constructor leaves them.\<close>

definition one_dir :: state where
  "one_dir = DirInfo_new 2 3 (FileInfo_new ''R'' Directory 0 0 0 None) empty_state"

text \<open>A directory object whose read state is \<open>KDirAborted\<close>.\<close>

definition aborted_dir :: node where
  "aborted_dir =
     (init ((FileInfo_new ''d'' Directory 0 0 0 None)\<lparr>isDirInfo := True\<rparr>))\<lparr>m_readState := KDirAborted\<rparr>"

text \<open>The directory's read is aborted, then a read job is added on its dot entry.\<close>

definition dot_busy :: "state option" where
  "dot_busy = readJobAborted one_dir 2 \<bind> (\<lambda>s1. readJobAdded s1 3)"

text \<open>What \<^verbatim>\<open>childAdded\<close> does to one object on the way up, for the new child \<open>e\<close>.\<close>

definition child_delta :: "node \<Rightarrow> node \<Rightarrow> node" where
  "child_delta e x = (if m_summaryDirty x then x else add_child e x)"

text \<open>The pointer members of an object.\<close>

definition links :: "node \<Rightarrow> addr option \<times> addr option \<times> addr option \<times> addr option" where
  "links n = (m_parent n, m_next n, m_firstChild n, m_dotEntry n)"

text \<open>\<^verbatim>\<open>new\<close>: an object placed at an address.\<close>

definition alloc :: "addr \<Rightarrow> node \<Rightarrow> state \<Rightarrow> state" where
  "alloc a n s = s\<lparr>heap := (heap s)(a \<mapsto> n)\<rparr>"

text \<open>
  The scenario of the specification: a root directory R (address 2, dot entry 3), a file F1 of
  size 100 inserted into R (address 4), a directory D inserted into R (address 5, dot entry
  6), a file F2 of size 50 inserted into D (address 7). The scenario leaves open the mtimes
  of the two directories (\<open>rt\<close>, \<open>dt\<close>); every constructor records the parent it is given.
\<close>

definition scenario :: "int \<Rightarrow> int \<Rightarrow> int \<Rightarrow> int \<Rightarrow> state option" where
  "scenario rt dt t1 t2 = do {
     let s0 = DirInfo_new 2 3 (FileInfo_new ''R'' Directory 0 0 rt None) empty_state;
     let s1 = alloc 4 (FileInfo_new ''F1'' Regular 100 0 t1 (Some 2)) s0;
     s2 \<leftarrow> insertChild s1 2 4;
     let s3 = DirInfo_new 5 6 (FileInfo_new ''D'' Directory 0 0 dt (Some 2)) s2;
     s4 \<leftarrow> insertChild s3 2 5;
     let s5 = alloc 7 (FileInfo_new ''F2'' Regular 50 0 t2 (Some 5)) s4;
     insertChild s5 5 7
   }"

text \<open>The directory of \<open>one_dir\<close> and a file constructed with it as parent, before and after
  \<^verbatim>\<open>insertChild\<close>.\<close>

definition with_file :: state where
  "with_file = alloc 4 (FileInfo_new ''F1'' Regular 100 0 0 (Some 2)) one_dir"

definition one_file :: state where
  "one_file = upd_each [3, 2] (child_delta (FileInfo_new ''F1'' Regular 100 0 0 (Some 2)))
                (link_child 3 4 with_file)"

text \<open>A sequence of \<^verbatim>\<open>insertChild\<close> calls, each given as (directory, new entry).\<close>

fun insert_all :: "state \<Rightarrow> (addr \<times> addr) list \<Rightarrow> state option" where
  "insert_all s [] = Some s"
| "insert_all s ((a, c) # ops) = insertChild s a c \<bind> (\<lambda>s1. insert_all s1 ops)"

text \<open>The object \<open>x\<close> is reached from \<open>c\<close> by parent pointers: \<open>c\<close> is in the subtree of \<open>x\<close>.\<close>

definition is_ancestor :: "state \<Rightarrow> addr \<Rightarrow> addr \<Rightarrow> bool" where
  "is_ancestor s x c = (case ancestors s c of Some ps \<Rightarrow> x \<in> set ps | None \<Rightarrow> False)"

text \<open>
  The state \<^verbatim>\<open>cleanupDotEntries\<close> leaves when it moves the children \<open>ds\<close> of the dot entry \<open>d\<close>
  to the directory \<open>a\<close> and deletes the dot entry; \<open>first\<close> is the head of \<open>ds\<close>.
\<close>

definition reparented :: "addr \<Rightarrow> addr \<Rightarrow> addr option \<Rightarrow> addr list \<Rightarrow> state \<Rightarrow> state" where
  "reparented a d first ds s =
     s\<lparr>heap := (\<lambda>x. if x = d then None
                    else if x = a
                      then map_option (\<lambda>n. n\<lparr>m_firstChild := first, m_dotEntry := None\<rparr>) (heap s a)
                    else if x \<in> set ds
                      then map_option (\<lambda>n. n\<lparr>m_parent := Some a\<rparr>) (heap s x)
                    else heap s x)\<rparr>"

text \<open>The direct children (of a list of children) that are directories.\<close>

definition subdirs :: "state \<Rightarrow> addr list \<Rightarrow> addr list" where
  "subdirs s cs = filter (\<lambda>c. case heap s c of Some e \<Rightarrow> isDir e | None \<Rightarrow> False) cs"

text \<open>
  The subtree rooted at an object, as a tree of addresses. The children of a tree node are
  what the iterator yields for the object: its direct children and the children of its dot
  entry. The dot entry itself is no node of the tree. An object that is no \<^verbatim>\<open>DirInfo\<close> has
  no children.
\<close>

datatype tree = Node addr "tree list"

fun root :: "tree \<Rightarrow> addr" where
  "root (Node a ts) = a"

fun nodes :: "tree \<Rightarrow> addr list" where
  "nodes (Node a ts) = a # concat (map nodes ts)"

definition descendants :: "tree \<Rightarrow> addr list" where
  "descendants t = tl (nodes t)"

definition items :: "state \<Rightarrow> addr \<Rightarrow> addr list option" where
  "items s a =
     (case heap s a of
        None \<Rightarrow> None
      | Some n \<Rightarrow> if isDirInfo n then FileInfoIterator s a else Some [])"

fun is_tree :: "state \<Rightarrow> tree \<Rightarrow> bool" where
  "is_tree s (Node a ts) = (items s a = Some (map root ts) \<and> (\<forall>t\<in>set ts. is_tree s t))"

text \<open>
  The sums over a subtree, in the words of the specification: size and blocks are summed
  over the root and all its descendants; items, subdirectories and files are the descendants
  (all of them, those that are directories, those that are files); the latest mtime is the
  maximum over the root and all its descendants.
\<close>

definition field :: "(node \<Rightarrow> 'a) \<Rightarrow> 'a \<Rightarrow> state \<Rightarrow> addr \<Rightarrow> 'a" where
  "field f dflt s a = (case heap s a of Some n \<Rightarrow> f n | None \<Rightarrow> dflt)"

definition subtree_size :: "state \<Rightarrow> tree \<Rightarrow> int" where
  "subtree_size s t = (\<Sum>x\<leftarrow>nodes t. field m_size 0 s x)"

definition subtree_blocks :: "state \<Rightarrow> tree \<Rightarrow> int" where
  "subtree_blocks s t = (\<Sum>x\<leftarrow>nodes t. field m_blocks 0 s x)"

definition subtree_items :: "tree \<Rightarrow> int" where
  "subtree_items t = int (length (descendants t))"

definition subtree_subdirs :: "state \<Rightarrow> tree \<Rightarrow> int" where
  "subtree_subdirs s t = int (length (filter (field isDir False s) (descendants t)))"

definition subtree_files :: "state \<Rightarrow> tree \<Rightarrow> int" where
  "subtree_files s t = int (length (filter (field isFile False s) (descendants t)))"

definition subtree_mtime :: "state \<Rightarrow> tree \<Rightarrow> int" where
  "subtree_mtime s t = Max (set (map (field m_mtime 0 s) (nodes t)))"

text \<open>
  The summary of the root of \<open>t\<close> is right: if the root is a \<^verbatim>\<open>DirInfo\<close> that is not dirty,
  its six summary members are the sums over \<open>t\<close>. \<open>all_ok\<close> says so for every node of \<open>t\<close>.
\<close>

definition summary_ok :: "state \<Rightarrow> tree \<Rightarrow> bool" where
  "summary_ok s t =
     (case heap s (root t) of
        None \<Rightarrow> True
      | Some n \<Rightarrow>
          isDirInfo n \<and> \<not> m_summaryDirty n \<longrightarrow>
            m_totalSize n = subtree_size s t \<and>
            m_totalBlocks n = subtree_blocks s t \<and>
            m_totalItems n = subtree_items t \<and>
            m_totalSubDirs n = subtree_subdirs s t \<and>
            m_totalFiles n = subtree_files s t \<and>
            m_latestMtime n = subtree_mtime s t)"

fun all_ok :: "state \<Rightarrow> tree \<Rightarrow> bool" where
  "all_ok s (Node a ts) = (summary_ok s (Node a ts) \<and> (\<forall>t\<in>set ts. all_ok s t))"

text \<open>
  The objects \<^verbatim>\<open>recalc()\<close> is to run on when an accessor is called on the root of \<open>t\<close>: the root
  if it is a dirty \<^verbatim>\<open>DirInfo\<close>, and then, in the order of the iterator, what is to run for
  each child. Below a clean directory nothing is visited.
\<close>

definition is_dirty :: "state \<Rightarrow> addr \<Rightarrow> bool" where
  "is_dirty s a = (case heap s a of Some n \<Rightarrow> isDirInfo n \<and> m_summaryDirty n | None \<Rightarrow> False)"

fun visits :: "state \<Rightarrow> tree \<Rightarrow> addr list" where
  "visits s (Node a ts) = (if is_dirty s a then a # concat (map (visits s) ts) else [])"

text \<open>What a summary accessor returns for an object that needs no \<^verbatim>\<open>recalc()\<close>.\<close>

definition summary_val :: "summary \<Rightarrow> node \<Rightarrow> int" where
  "summary_val f n = (if isDirInfo n then cached f n else own f n)"

text \<open>One turn of the loop of \<^verbatim>\<open>recalc()\<close>, for a child \<open>c\<close> that needs no \<^verbatim>\<open>recalc()\<close> any more.\<close>

definition absorb :: "node \<Rightarrow> node \<Rightarrow> node" where
  "absorb c n = n
     \<lparr> m_totalSize := m_totalSize n + summary_val TotalSize c,
       m_totalBlocks := m_totalBlocks n + summary_val TotalBlocks c,
       m_totalItems := m_totalItems n + (summary_val TotalItems c + 1),
       m_totalSubDirs := m_totalSubDirs n + summary_val TotalSubDirs c + (if isDir c then 1 else 0),
       m_totalFiles := m_totalFiles n + summary_val TotalFiles c + (if isFile c then 1 else 0),
       m_latestMtime := max (m_latestMtime n) (summary_val LatestMtime c) \<rparr>"

text \<open>An object without its summary: two states with the same skeletons differ in summary
  members and dirty flags only.\<close>

definition skel :: "node \<Rightarrow> node" where
  "skel n = n
     \<lparr> m_totalSize := 0, m_totalBlocks := 0, m_totalItems := 0, m_totalSubDirs := 0,
       m_totalFiles := 0, m_latestMtime := 0, m_summaryDirty := False \<rparr>"

definition same_skel :: "state \<Rightarrow> state \<Rightarrow> bool" where
  "same_skel s s' = (\<forall>x. map_option skel (heap s' x) = map_option skel (heap s x))"

definition settled :: "state \<Rightarrow> addr \<Rightarrow> bool" where
  "settled s a = (case heap s a of Some n \<Rightarrow> isDirInfo n \<longrightarrow> \<not> m_summaryDirty n | None \<Rightarrow> False)"

text \<open>One turn of the loop in terms of the subtree \<open>t\<close> of the child: the sums over \<open>t\<close> are
  added to the summary of the directory.\<close>

definition absorb_tree :: "state \<Rightarrow> tree \<Rightarrow> node \<Rightarrow> node" where
  "absorb_tree s t n = n
     \<lparr> m_totalSize := m_totalSize n + subtree_size s t,
       m_totalBlocks := m_totalBlocks n + subtree_blocks s t,
       m_totalItems := m_totalItems n + (subtree_items t + 1),
       m_totalSubDirs := m_totalSubDirs n + subtree_subdirs s t
                         + (if field isDir False s (root t) then 1 else 0),
       m_totalFiles := m_totalFiles n + subtree_files s t
                       + (if field isFile False s (root t) then 1 else 0),
       m_latestMtime := max (m_latestMtime n) (subtree_mtime s t) \<rparr>"

text \<open>What an accessor on the root of \<open>t\<close> leaves behind: only summaries have changed, and
  only inside \<open>t\<close>; every summary in \<open>t\<close> that is not dirty is right and the root needs no
  \<^verbatim>\<open>recalc()\<close> any more; \<^verbatim>\<open>recalc()\<close> has been entered on the objects of \<open>visits\<close>, in this
  order.\<close>

definition recalc_post :: "state \<Rightarrow> state \<Rightarrow> tree \<Rightarrow> bool" where
  "recalc_post s s' t \<longleftrightarrow>
     same_skel s s' \<and> (\<forall>x. x \<notin> set (nodes t) \<longrightarrow> heap s' x = heap s x) \<and>
     all_ok s' t \<and> settled s' (root t) \<and>
     errors s' = errors s \<and> finalizeLocal_sent s' = finalizeLocal_sent s \<and>
     recalc_calls s' = recalc_calls s @ visits s t"

text \<open>The state of the scenario (with mtimes 0, 0, 1, 2) after the file F1 has been reported
  as being deleted to its parent, the dot entry of R.\<close>

definition after_delete :: "state option" where
  "after_delete = scenario 0 0 1 2 \<bind> (\<lambda>s. deletingChild s 3 4)"




text \<open>The objects a subtree is made of: its nodes and their dot entries.\<close>

fun cells :: "state \<Rightarrow> tree \<Rightarrow> addr list" where
  "cells s (Node a ts) =
     a # (case field m_dotEntry None s a of Some d \<Rightarrow> [d] | None \<Rightarrow> [])
       @ concat (map (cells s) ts)"

text \<open>The state after the deletion of F1, in which R is dirty, with a new file F3 constructed
  at address 8.\<close>

definition dirty_with_file :: "state option" where
  "dirty_with_file =
     map_option (alloc 8 (FileInfo_new ''F3'' Regular 10 0 3 (Some 2))) after_delete"

text \<open>
  The routing rule in the words of the specification: the object an entry inserted into the
  directory \<open>a\<close> becomes a child of is \<open>a\<close> itself if the entry is a directory, or \<open>a\<close> has
  no dot entry, or \<open>a\<close> is a dot entry, and the dot entry of \<open>a\<close> otherwise.
\<close>

definition route :: "state \<Rightarrow> addr \<Rightarrow> addr \<Rightarrow> addr option" where
  "route s a c = do {
     n \<leftarrow> heap s a;
     e \<leftarrow> heap s c;
     if isDir e \<or> m_dotEntry n = None \<or> m_isDotEntry n then Some a
     else do {
       d \<leftarrow> m_dotEntry n;
       dn \<leftarrow> heap s d;
       if m_dotEntry dn = None \<or> m_isDotEntry dn then Some d else None
     }
   }"

text \<open>The entries of a sequence of \<^verbatim>\<open>insertChild\<close> calls, each with the object it is to
  become a child of.\<close>

fun routes :: "state \<Rightarrow> (addr \<times> addr) list \<Rightarrow> (addr \<times> addr) list option" where
  "routes s [] = Some []"
| "routes s ((a, c) # ops) = do { l \<leftarrow> route s a c; r \<leftarrow> routes s ops; Some ((c, l) # r) }"

text \<open>The tree the sequence is to build, as parent pointers: every entry points to the
  object it is to become a child of, all other objects keep their parent.\<close>

fun reparent :: "(addr \<times> addr) list \<Rightarrow> state \<Rightarrow> state" where
  "reparent [] s = s"
| "reparent ((c, l) # r) s = reparent r (upd c (\<lambda>n. n\<lparr>m_parent := Some l\<rparr>) s)"

text \<open>The order of the sequence is top-down in the tree \<open>p\<close> it is to build: every entry
  has a parent chain that ends, and nothing on this chain is inserted later.\<close>

fun top_down :: "state \<Rightarrow> addr list \<Rightarrow> bool" where
  "top_down p [] = True"
| "top_down p (c # cs) =
     ((case ancestors p c of Some ps \<Rightarrow> set ps \<inter> set cs = {} | None \<Rightarrow> False) \<and> top_down p cs)"

text \<open>The running sum for the object \<open>x\<close> in the tree \<open>p\<close>: every entry of \<open>cs\<close> in the subtree
  of \<open>x\<close> contributes \<open>f\<close> of itself (its own size, its own blocks, or 1).\<close>

definition below :: "(node \<Rightarrow> int) \<Rightarrow> state \<Rightarrow> addr list \<Rightarrow> addr \<Rightarrow> int" where
  "below f p cs x = (\<Sum>c\<leftarrow>cs. if is_ancestor p x c then field f 0 p c else 0)"

text \<open>The members of an object that routing, parent chains and running sums depend on.\<close>

definition key :: "node \<Rightarrow> addr option \<times> int \<times> int \<times> ftype \<times> addr option \<times> bool" where
  "key n = (m_parent n, m_size n, m_blocks n, m_mode n, m_dotEntry n, m_isDotEntry n)"

definition rkey :: "node \<Rightarrow> ftype \<times> addr option \<times> bool" where
  "rkey n = (m_mode n, m_dotEntry n, m_isDotEntry n)"

definition same_keys :: "state \<Rightarrow> state \<Rightarrow> bool" where
  "same_keys s t = (\<forall>x. map_option key (heap t x) = map_option key (heap s x))"

text \<open>The objects of the scenario (with mtimes 0, 0, 1, 2), all constructed and none inserted
  yet.\<close>

definition built :: state where
  "built =
     alloc 7 (FileInfo_new ''F2'' Regular 50 0 2 (Some 5))
       (DirInfo_new 5 6 (FileInfo_new ''D'' Directory 0 0 0 (Some 2))
          (alloc 4 (FileInfo_new ''F1'' Regular 100 0 1 (Some 2))
             (DirInfo_new 2 3 (FileInfo_new ''R'' Directory 0 0 0 None) empty_state)))"

text \<open>A directory D that is constructed without a parent and gets its file F2 before it is
  inserted into R itself.\<close>

definition bottom_up :: "state option" where
  "bottom_up =
     insert_all
       (alloc 7 (FileInfo_new ''F2'' Regular 50 0 2 (Some 5))
          (DirInfo_new 5 6 (FileInfo_new ''D'' Directory 0 0 0 None)
             (DirInfo_new 2 3 (FileInfo_new ''R'' Directory 0 0 0 None) empty_state)))
       [(5, 7), (2, 5)]"

text \<open>Three directories R (address 2), A (5) and B (8), constructed without parents, and a
  file F (7) of size 50: F is inserted into B, then B into A, then A into R.\<close>

definition three_levels :: "state option" where
  "three_levels =
     insert_all
       (alloc 7 (FileInfo_new ''F'' Regular 50 0 0 (Some 8))
          (DirInfo_new 8 9 (FileInfo_new ''B'' Directory 0 0 0 None)
             (DirInfo_new 5 6 (FileInfo_new ''A'' Directory 0 0 0 None)
                (DirInfo_new 2 3 (FileInfo_new ''R'' Directory 0 0 0 None) empty_state))))
       [(8, 7), (5, 8), (2, 5)]"


section \<open>Basic facts\<close>

lemma heap_upd [simp]: "heap (upd a f s) = (heap s)(a := map_option f (heap s a))"
  and errors_upd [simp]: "errors (upd a f s) = errors s"
  and sent_upd [simp]: "finalizeLocal_sent (upd a f s) = finalizeLocal_sent s"
  and calls_upd [simp]: "recalc_calls (upd a f s) = recalc_calls s"
  by (simp_all add: upd_def)

lemma heap_free [simp]: "heap (free a s) = (heap s)(a := None)"
  and errors_free [simp]: "errors (free a s) = errors s"
  and sent_free [simp]: "finalizeLocal_sent (free a s) = finalizeLocal_sent s"
  and calls_free [simp]: "recalc_calls (free a s) = recalc_calls s"
  by (simp_all add: free_def)

lemma heap_upd_each [simp]:
  "heap (upd_each xs f s) = (\<lambda>x. if x \<in> set xs then map_option f (heap s x) else heap s x)"
  and errors_upd_each [simp]: "errors (upd_each xs f s) = errors s"
  and sent_upd_each [simp]: "finalizeLocal_sent (upd_each xs f s) = finalizeLocal_sent s"
  and calls_upd_each [simp]: "recalc_calls (upd_each xs f s) = recalc_calls s"
  by (simp_all add: upd_each_def)

lemma state_eqI:
  "heap s = heap t \<Longrightarrow> errors s = errors t \<Longrightarrow> finalizeLocal_sent s = finalizeLocal_sent t
     \<Longrightarrow> recalc_calls s = recalc_calls t \<Longrightarrow> s = (t::state)"
  by simp

lemma upd_each_Cons: "a \<notin> set xs \<Longrightarrow> upd_each xs f (upd a f s) = upd_each (a # xs) f s"
  by (rule state_eqI) (auto simp: fun_eq_iff)

lemma upd_each_single: "upd a f s = upd_each [a] f s"
  by (rule state_eqI) (auto simp: fun_eq_iff)

lemmas build_defs = one_dir_def DirInfo_new_def empty_state_def DirInfo_asDotEntry_def
  FileInfo_new_def init_def upd_def Let_def

lemma one_dir_2:
  "heap one_dir 2 =
     Some ((init ((FileInfo_new ''R'' Directory 0 0 0 None)\<lparr>isDirInfo := True\<rparr>))
             \<lparr>m_isDotEntry := False, m_dotEntry := Some 3\<rparr>)"
  by (simp add: one_dir_def DirInfo_new_def empty_state_def Let_def)

lemma one_dir_3:
  "heap one_dir 3 = Some (DirInfo_asDotEntry (FileInfo_new [] Other 0 0 0 (Some 2)))"
  by (simp add: one_dir_def DirInfo_new_def empty_state_def Let_def)

subsection \<open>Lists in the store\<close>

lemma follow_None [simp]: "follow fld s None = Some []"
  by (subst follow.simps) simp

lemma follow_Some:
  "follow fld s (Some c) =
     (case heap s c of None \<Rightarrow> None
      | Some n \<Rightarrow> map_option ((#) c) (follow fld s (fld n)))"
  by (subst follow.simps) (simp split: option.splits bind_splits)

lemma follow_Nil_iff [simp]: "follow fld s p = Some [] \<longleftrightarrow> p = None"
  by (cases p) (auto simp: follow_Some split: option.splits)

lemma follow_Cons_iff:
  "follow fld s p = Some (c # cs) \<longleftrightarrow>
     p = Some c \<and> (\<exists>n. heap s c = Some n \<and> follow fld s (fld n) = Some cs)"
  by (cases p) (auto simp: follow_Some split: option.splits)

lemma follow_suffix:
  "follow fld s p = Some (xs @ c # ys) \<Longrightarrow> follow fld s (Some c) = Some (c # ys)"
  by (induction xs arbitrary: p) (auto simp: follow_Cons_iff)

text \<open>A list that ends in null visits no object twice.\<close>

lemma follow_notin:
  assumes "heap s c = Some n" and "follow fld s (fld n) = Some cs"
  shows "c \<notin> set cs"
proof
  assume "c \<in> set cs"
  then obtain xs ys where cs: "cs = xs @ c # ys" by (auto simp: in_set_conv_decomp)
  from assms(2) have "follow fld s (Some c) = Some (c # ys)"
    unfolding cs by (rule follow_suffix)
  with assms have "cs = ys" by (auto simp: follow_Cons_iff)
  with cs show False by simp
qed

lemma follow_distinct: "follow fld s p = Some cs \<Longrightarrow> distinct cs"
proof (induction cs arbitrary: p)
  case Nil
  then show ?case by simp
next
  case (Cons c cs)
  then show ?case by (auto simp: follow_Cons_iff dest: follow_notin)
qed

text \<open>The list depends on the followed field only.\<close>

lemma follow_agree_Some:
  assumes "\<And>x. map_option fld (heap t x) = map_option fld (heap s x)"
  shows "follow fld s p = Some cs \<Longrightarrow> follow fld t p = Some cs"
proof (induction cs arbitrary: p)
  case Nil
  then show ?case by simp
next
  case (Cons c cs)
  then obtain n where n: "p = Some c" "heap s c = Some n" "follow fld s (fld n) = Some cs"
    by (auto simp: follow_Cons_iff)
  from assms[of c] n(2) obtain m where m: "heap t c = Some m" "fld m = fld n"
    by (cases "heap t c") auto
  with Cons.IH[OF n(3)] n(1) show ?case by (simp add: follow_Cons_iff)
qed

lemma follow_agree:
  assumes "\<And>x. map_option fld (heap t x) = map_option fld (heap s x)"
  shows "follow fld t p = follow fld s p"
proof (cases "follow fld s p")
  case None
  show ?thesis
  proof (cases "follow fld t p")
    case None
    with \<open>follow fld s p = None\<close> show ?thesis by simp
  next
    case (Some cs)
    have "follow fld s p = Some cs"
      by (rule follow_agree_Some[OF _ Some]) (simp add: assms)
    with None show ?thesis by simp
  qed
next
  case (Some cs)
  then show ?thesis using follow_agree_Some[OF assms] by simp
qed

lemma follow_upd:
  "(\<And>n. fld (f n) = fld n) \<Longrightarrow> follow fld (upd a f s) p = follow fld s p"
  by (rule follow_agree) (auto simp: option.map_comp comp_def)

lemma ancestors_distinct:
  assumes "ancestors s a = Some ps"
  shows "a \<notin> set ps" and "distinct ps"
proof -
  from assms obtain n where n: "heap s a = Some n" "follow m_parent s (m_parent n) = Some ps"
    by (auto simp: ancestors_def split: bind_splits)
  then show "a \<notin> set ps" by (rule follow_notin)
  from n(2) show "distinct ps" by (rule follow_distinct)
qed

lemma ancestors_Nil: "ancestors s a = Some [] \<longleftrightarrow> (\<exists>n. heap s a = Some n \<and> m_parent n = None)"
  by (auto simp: ancestors_def split: bind_splits)

lemma ancestors_Cons:
  "ancestors s a = Some (p # ps) \<longleftrightarrow>
     (\<exists>n. heap s a = Some n \<and> m_parent n = Some p) \<and> ancestors s p = Some ps"
  by (auto simp: ancestors_def follow_Cons_iff split: bind_splits)

lemma ancestors_upd:
  "(\<And>n. m_parent (f n) = m_parent n) \<Longrightarrow> ancestors (upd b f s) a = ancestors s a"
  by (cases "heap s a") (auto simp: ancestors_def follow_upd)

lemma ancestors_upd_each:
  "(\<And>n. m_parent (f n) = m_parent n) \<Longrightarrow> ancestors (upd_each xs f s) a = ancestors s a"
  unfolding ancestors_def
  by (cases "heap s a") (auto intro!: follow_agree simp: option.map_comp comp_def)

lemma one_dir_ancestors: "ancestors one_dir 2 = Some []" "ancestors one_dir 3 = Some [2]"
  by (simp_all add: ancestors_def one_dir_2 one_dir_3 follow_Some init_def FileInfo_new_def
      DirInfo_asDotEntry_def)

section \<open>Read state and read jobs: properties\<close>

subsection \<open>The path of ancestors\<close>

lemma readJobFinished_path:
  "ancestors s a = Some ps \<Longrightarrow>
   readJobFinished s a =
     Some (upd_each (a # ps) (\<lambda>x. x\<lparr>m_pendingReadJobs := m_pendingReadJobs x - 1\<rparr>) s)"
proof (induction ps arbitrary: s a)
  case Nil
  then show ?case
    by (subst readJobFinished.simps) (auto simp: ancestors_Nil upd_each_single)
next
  case (Cons p ps)
  let ?f = "\<lambda>x. x\<lparr>m_pendingReadJobs := m_pendingReadJobs x - 1\<rparr>"
  from Cons.prems obtain n where n: "heap s a = Some n" "m_parent n = Some p"
    and p: "ancestors s p = Some ps"
    by (auto simp: ancestors_Cons)
  from Cons.prems have notin: "a \<notin> set (p # ps)" by (rule ancestors_distinct)
  have "ancestors (upd a ?f s) p = Some ps" using p by (simp add: ancestors_upd)
  from Cons.IH[OF this] n notin show ?case
    by (subst readJobFinished.simps) (simp add: upd_each_Cons)
qed

lemma readJobAdded_path:
  "ancestors s a = Some ps \<Longrightarrow>
   readJobAdded s a =
     Some (upd_each (a # ps) (\<lambda>x. x\<lparr>m_pendingReadJobs := m_pendingReadJobs x + 1\<rparr>) s)"
proof (induction ps arbitrary: s a)
  case Nil
  then show ?case
    by (subst readJobAdded.simps) (auto simp: ancestors_Nil upd_each_single)
next
  case (Cons p ps)
  let ?f = "\<lambda>x. x\<lparr>m_pendingReadJobs := m_pendingReadJobs x + 1\<rparr>"
  from Cons.prems obtain n where n: "heap s a = Some n" "m_parent n = Some p"
    and p: "ancestors s p = Some ps"
    by (auto simp: ancestors_Cons)
  from Cons.prems have notin: "a \<notin> set (p # ps)" by (rule ancestors_distinct)
  have "ancestors (upd a ?f s) p = Some ps" using p by (simp add: ancestors_upd)
  from Cons.IH[OF this] n notin show ?case
    by (subst readJobAdded.simps) (simp add: upd_each_Cons)
qed

lemma readJobAborted_path:
  "ancestors s a = Some ps \<Longrightarrow>
   readJobAborted s a = Some (upd_each (a # ps) (\<lambda>x. x\<lparr>m_readState := KDirAborted\<rparr>) s)"
proof (induction ps arbitrary: s a)
  case Nil
  then show ?case
    by (subst readJobAborted.simps) (auto simp: ancestors_Nil upd_each_single)
next
  case (Cons p ps)
  let ?f = "\<lambda>x. x\<lparr>m_readState := KDirAborted\<rparr>"
  from Cons.prems obtain n where n: "heap s a = Some n" "m_parent n = Some p"
    and p: "ancestors s p = Some ps"
    by (auto simp: ancestors_Cons)
  from Cons.prems have notin: "a \<notin> set (p # ps)" by (rule ancestors_distinct)
  have "ancestors (upd a ?f s) p = Some ps" using p by (simp add: ancestors_upd)
  from Cons.IH[OF this] n notin show ?case
    by (subst readJobAborted.simps) (simp add: upd_each_Cons)
qed

subsection \<open>The read state\<close>

text \<open>
  C6, as the code has it: on an object whose stored read state is \<open>KDirAborted\<close>,
  \<^verbatim>\<open>setReadState\<close> with \<open>KDirFinished\<close> or \<open>KDirAborted\<close> leaves it \<open>KDirAborted\<close>, and
  \<^verbatim>\<open>setReadState\<close> with \<open>KDirQueued\<close> or \<open>KDirReading\<close> stores the new state.
\<close>

theorem setReadState_aborted:
  "m_readState n = KDirAborted \<Longrightarrow>
   m_readState (setReadState newState n) =
     (if newState = KDirQueued \<or> newState = KDirReading then newState else KDirAborted)"
  by (cases newState) (simp_all add: setReadState_def)

theorem setReadState_aborted_witness:
  "m_readState aborted_dir = KDirAborted \<and>
   m_readState (setReadState KDirFinished aborted_dir) = KDirAborted \<and>
   m_readState (setReadState KDirReading aborted_dir) = KDirReading"
  using setReadState_aborted [of aborted_dir KDirFinished]
    setReadState_aborted [of aborted_dir KDirReading]
  by (simp add: aborted_dir_def)

text \<open>C6 as stated fails: \<^verbatim>\<open>setReadState(KDirQueued)\<close> on an aborted directory takes it out of
  \<open>KDirAborted\<close>.\<close>

theorem setReadState_aborted_not_terminal:
  "m_readState aborted_dir = KDirAborted \<and>
   m_readState (setReadState KDirQueued aborted_dir) \<noteq> KDirAborted"
  by (simp add: aborted_dir_def setReadState_def)

lemma readState_unfold:
  "heap s a = Some n \<Longrightarrow>
   readState s a =
     (if m_isDotEntry n \<and> m_parent n \<noteq> None then readState s (the (m_parent n))
      else Some (m_readState n))"
  by (subst readState.simps) (simp split: option.splits)

text \<open>What is stored in a dot entry that has a parent does not reach any result of the
  accessor.\<close>

lemma readState_stored_irrelevant:
  assumes g: "\<And>x::node. m_isDotEntry (g x) = m_isDotEntry x \<and> m_parent (g x) = m_parent x"
    and major: "readState s a = Some r"
  shows "heap s d = Some n \<and> m_isDotEntry n \<and> m_parent n \<noteq> None
    \<longrightarrow> readState (upd d g s) a = Some r"
proof (rule readState.raw_induct[where P = "\<lambda>s a r. heap s d = Some n \<and> m_isDotEntry n \<and> m_parent n \<noteq> None
    \<longrightarrow> readState (upd d g s) a = Some r", OF _ major], intro impI)
  fix rs s a r
  assume IH: "\<And>s a r. rs s a = Some r \<Longrightarrow> heap s d = Some n \<and> m_isDotEntry n \<and> m_parent n \<noteq> None
    \<longrightarrow> readState (upd d g s) a = Some r"
    and body: "heap s a \<bind>
      (\<lambda>n. case m_parent n of None \<Rightarrow> Some (m_readState n)
         | Some p \<Rightarrow> if m_isDotEntry n then rs s p else Some (m_readState n)) = Some r"
    and d: "heap s d = Some n \<and> m_isDotEntry n \<and> m_parent n \<noteq> None"
  from body obtain na where na: "heap s a = Some na"
    by (auto split: bind_splits)
  show "readState (upd d g s) a = Some r"
  proof (cases "m_isDotEntry na \<and> m_parent na \<noteq> None")
    case True
    then obtain p where p: "m_parent na = Some p" by auto
    with True na body have "rs s p = Some r" by simp
    from IH[OF this] d have "readState (upd d g s) p = Some r" by simp
    with True na p g show ?thesis
      by (subst readState.simps) auto
  next
    case False
    with na body have r: "r = m_readState na" by (auto split: option.splits)
    from False d na have "a \<noteq> d" by auto
    with False na r show ?thesis
      by (subst readState.simps) (auto split: option.splits)
  qed
qed

text \<open>
  C8: for a dot entry with a parent, \<^verbatim>\<open>readState()\<close> is the parent's \<^verbatim>\<open>readState()\<close>, and stays
  what the parent reports whatever is written into the dot entry's own members (as long as
  it remains a dot entry of that parent); an object that is no dot entry, or has no parent,
  reports its stored read state.
\<close>

theorem readState_dot_entry:
  assumes "heap s a = Some n"
  shows "(m_isDotEntry n \<longrightarrow> (\<forall>p. m_parent n = Some p \<longrightarrow>
            readState s a = readState s p \<and>
            (\<forall>r g. readState s p = Some r \<longrightarrow>
                   (\<forall>x. m_isDotEntry (g x) = m_isDotEntry x \<and> m_parent (g x) = m_parent x) \<longrightarrow>
                   readState (upd a g s) a = Some r))) \<and>
         (\<not> m_isDotEntry n \<or> m_parent n = None \<longrightarrow> readState s a = Some (m_readState n))"
proof (intro conjI impI allI)
  fix p assume dot: "m_isDotEntry n" "m_parent n = Some p"
  with assms show eq: "readState s a = readState s p"
    by (simp add: readState_unfold)
  fix r g
  assume r: "readState s p = Some r"
    and g: "\<forall>x. m_isDotEntry ((g::node \<Rightarrow> node) x) = m_isDotEntry x \<and> m_parent (g x) = m_parent x"
  from r eq have "readState s a = Some r" by simp
  from readState_stored_irrelevant[OF _ this, of g a n] g assms dot
  show "readState (upd a g s) a = Some r" by simp
next
  assume "\<not> m_isDotEntry n \<or> m_parent n = None"
  with assms show "readState s a = Some (m_readState n)"
    by (auto simp: readState_unfold)
qed

theorem readState_dot_entry_witness:
  "heap one_dir 3 \<noteq> None \<and> readState one_dir 3 = readState one_dir 2 \<and>
   readState one_dir 2 = Some KDirQueued \<and>
   readState (upd 3 (\<lambda>x. x\<lparr>m_readState := KDirFinished\<rparr>) one_dir) 3 = Some KDirQueued"
proof -
  let ?g = "\<lambda>x::node. x\<lparr>m_readState := KDirFinished\<rparr>"
  have dot: "m_isDotEntry (DirInfo_asDotEntry (FileInfo_new [] Other 0 0 0 (Some 2)))"
    "m_parent (DirInfo_asDotEntry (FileInfo_new [] Other 0 0 0 (Some 2))) = Some 2"
    by (simp_all add: DirInfo_asDotEntry_def init_def FileInfo_new_def)
  have p: "readState one_dir 2 = Some KDirQueued"
    using readState_dot_entry[OF one_dir_2] by (simp add: init_def FileInfo_new_def)
  from readState_dot_entry[OF one_dir_3] dot
  have "readState one_dir 3 = readState one_dir 2"
    and "\<And>r g. readState one_dir 2 = Some r \<Longrightarrow>
           (\<forall>x. m_isDotEntry (g x) = m_isDotEntry x \<and> m_parent (g x) = m_parent x) \<Longrightarrow>
           readState (upd 3 g one_dir) 3 = Some r"
    by simp_all
  from this(1) this(2)[OF p, of ?g] p one_dir_3 show ?thesis by simp
qed

subsection \<open>Busy and finished\<close>

text \<open>
  C7, as the code has it: \<^verbatim>\<open>isBusy()\<close> is true iff (\<^verbatim>\<open>_pendingReadJobs > 0\<close> and the read state
  stored in the object itself is not \<open>KDirAborted\<close>) or the accessor \<^verbatim>\<open>readState()\<close> reports
  \<open>KDirReading\<close> or \<open>KDirQueued\<close>; \<^verbatim>\<open>isFinished()\<close> is its negation. For an object that is no
  dot entry, or has no parent, this is the busy condition of the specification.
\<close>

theorem isBusy_stored_state:
  assumes "heap s a = Some n" and "readState s a = Some r"
  shows "isBusy s a =
           Some ((m_pendingReadJobs n > 0 \<and> m_readState n \<noteq> KDirAborted)
                 \<or> r = KDirReading \<or> r = KDirQueued) \<and>
         isFinished s a = map_option Not (isBusy s a) \<and>
         (\<not> m_isDotEntry n \<or> m_parent n = None \<longrightarrow> isBusy s a = isBusy_claimed s a)"
proof -
  have "\<not> m_isDotEntry n \<or> m_parent n = None \<Longrightarrow> r = m_readState n"
    using assms by (auto simp: readState_unfold)
  with assms show ?thesis
    by (auto simp: isBusy_def isFinished_def isBusy_claimed_def)
qed

theorem isBusy_stored_state_witness:
  "heap one_dir 2 \<noteq> None \<and> readState one_dir 2 = Some KDirQueued \<and>
   isBusy one_dir 2 = Some True \<and> isFinished one_dir 2 = Some False \<and>
   isBusy_claimed one_dir 2 = Some True"
proof -
  have r: "readState one_dir 2 = Some KDirQueued"
    using one_dir_2 by (simp add: readState_unfold init_def FileInfo_new_def)
  from isBusy_stored_state[OF one_dir_2 r]
  have "isBusy one_dir 2 = Some True \<and> isFinished one_dir 2 = Some False \<and>
    isBusy one_dir 2 = isBusy_claimed one_dir 2"
    by (auto simp: init_def FileInfo_new_def)
  with r one_dir_2 show ?thesis by auto
qed

lemma dot_busy_state:
  "dot_busy = Some (upd_each [3, 2] (\<lambda>x. x\<lparr>m_pendingReadJobs := m_pendingReadJobs x + 1\<rparr>)
                (upd 2 (\<lambda>x. x\<lparr>m_readState := KDirAborted\<rparr>) one_dir))"
proof -
  have 1: "readJobAborted one_dir 2 = Some (upd 2 (\<lambda>x. x\<lparr>m_readState := KDirAborted\<rparr>) one_dir)"
    by (simp add: readJobAborted_path one_dir_ancestors upd_each_single)
  have "ancestors (upd 2 (\<lambda>x. x\<lparr>m_readState := KDirAborted\<rparr>) one_dir) 3 = Some [2]"
    by (simp add: ancestors_upd one_dir_ancestors)
  then show ?thesis
    by (simp add: dot_busy_def 1 readJobAdded_path)
qed

text \<open>
  C7 as stated fails on a dot entry: after the directory's read is aborted and a read job is
  added on its dot entry, \<^verbatim>\<open>readState()\<close> of the dot entry is \<open>KDirAborted\<close>, so the busy
  condition of the specification is false, but \<^verbatim>\<open>isBusy()\<close> is true: the dot entry's own
  stored state is still \<open>KDirQueued\<close>.
\<close>

theorem isBusy_dot_entry_counterexample:
  "(dot_busy \<bind> (\<lambda>s. isBusy s 3)) = Some True \<and>
   (dot_busy \<bind> (\<lambda>s. isBusy_claimed s 3)) = Some False \<and>
   (dot_busy \<bind> (\<lambda>s. readState s 3)) = Some KDirAborted \<and>
   (dot_busy \<bind> (\<lambda>s. map_option m_pendingReadJobs (heap s 3))) = Some 1"
  by (simp add: dot_busy_state isBusy_def isBusy_claimed_def readState.simps build_defs)

subsection \<open>Read jobs\<close>

lemma run_jobs_pending:
  assumes "\<forall>e\<in>set evs. ancestors s (snd e) \<noteq> None"
  shows "\<exists>s'. run_jobs s evs = Some s' \<and>
           (\<forall>x. map_option m_pendingReadJobs (heap s' x) =
                map_option (\<lambda>n. m_pendingReadJobs n + attributed s x Added evs
                                 - attributed s x Finished evs) (heap s x)) \<and>
           (\<forall>b. ancestors s' b = ancestors s b)"
  using assms
proof (induction evs arbitrary: s)
  case Nil
  then show ?case by (simp add: attributed_def option.map_ident)
next
  case (Cons e evs)
  obtain k b where e: "e = (k, b)" by (cases e)
  with Cons.prems obtain ps where ps: "ancestors s b = Some ps" by auto
  let ?f = "\<lambda>x. x\<lparr>m_pendingReadJobs := m_pendingReadJobs x + (if k = Added then 1 else - 1)\<rparr>"
  let ?s1 = "upd_each (b # ps) ?f s"
  have step: "run_jobs s (e # evs) = run_jobs ?s1 evs"
    using ps e by (cases k) (simp_all add: readJobAdded_path readJobFinished_path)
  have anc: "ancestors ?s1 c = ancestors s c" for c
    by (simp add: ancestors_upd_each)
  then have "\<forall>e\<in>set evs. ancestors ?s1 (snd e) \<noteq> None"
    using Cons.prems by simp
  from Cons.IH[OF this] obtain s' where s': "run_jobs ?s1 evs = Some s'"
    "\<And>x. map_option m_pendingReadJobs (heap s' x) =
          map_option (\<lambda>n. m_pendingReadJobs n + attributed ?s1 x Added evs
                                 - attributed ?s1 x Finished evs) (heap ?s1 x)"
    "\<And>c. ancestors s' c = ancestors ?s1 c"
    by blast
  have att: "attributed ?s1 x k' evs = attributed s x k' evs" for x k'
    by (simp add: attributed_def on_path_def anc)
  have "map_option m_pendingReadJobs (heap s' x) =
        map_option (\<lambda>n. m_pendingReadJobs n + attributed s x Added (e # evs)
                                 - attributed s x Finished (e # evs)) (heap s x)" for x
    unfolding s'(2) att using ps e
    by (cases k; cases "heap s x") (auto simp: attributed_def on_path_def)
  with step s'(1,3) anc show ?case by auto
qed

text \<open>
  C10: \<^verbatim>\<open>readJobFinished()\<close> on a directory whose counter is 0 returns with the counter at -1,
  and so does the counter of every ancestor that was at 0; in general, after any sequence of
  \<^verbatim>\<open>readJobAdded()\<close> and \<^verbatim>\<open>readJobFinished()\<close> calls the counter of a directory is its old
  value plus the number of added minus the number of finished jobs attributed to it, with no
  lower bound.
\<close>

theorem readJobFinished_unbounded:
  assumes "heap s a = Some n" and "ancestors s a = Some ps"
  shows "(m_pendingReadJobs n = 0 \<longrightarrow>
           (\<exists>s'. readJobFinished s a = Some s' \<and>
              map_option m_pendingReadJobs (heap s' a) = Some (- 1) \<and>
              (\<forall>p\<in>set ps. \<forall>pn. heap s p = Some pn \<and> m_pendingReadJobs pn = 0 \<longrightarrow>
                 map_option m_pendingReadJobs (heap s' p) = Some (- 1)))) \<and>
         (\<forall>evs :: (job_event \<times> addr) list. (\<forall>e\<in>set evs. ancestors s (snd e) \<noteq> None) \<longrightarrow>
            (\<exists>s'. run_jobs s evs = Some s' \<and>
               map_option m_pendingReadJobs (heap s' a) =
                 Some (m_pendingReadJobs n + attributed s a Added evs - attributed s a Finished evs)))"
proof (intro conjI impI allI)
  assume "m_pendingReadJobs n = 0"
  with assms show "\<exists>s'. readJobFinished s a = Some s' \<and>
              map_option m_pendingReadJobs (heap s' a) = Some (- 1) \<and>
              (\<forall>p\<in>set ps. \<forall>pn. heap s p = Some pn \<and> m_pendingReadJobs pn = 0 \<longrightarrow>
                 map_option m_pendingReadJobs (heap s' p) = Some (- 1))"
    by (auto simp: readJobFinished_path)
next
  fix evs :: "(job_event \<times> addr) list"
  assume "\<forall>e\<in>set evs. ancestors s (snd e) \<noteq> None"
  from run_jobs_pending[OF this] obtain s' where s': "run_jobs s evs = Some s'"
    "map_option m_pendingReadJobs (heap s' a) =
       map_option (\<lambda>n. m_pendingReadJobs n + attributed s a Added evs
                                 - attributed s a Finished evs) (heap s a)"
    by blast
  with assms(1)
  show "\<exists>s'. run_jobs s evs = Some s' \<and>
               map_option m_pendingReadJobs (heap s' a) =
                 Some (m_pendingReadJobs n + attributed s a Added evs - attributed s a Finished evs)"
    by simp
qed

theorem readJobFinished_unbounded_witness:
  "readJobFinished one_dir 3 \<bind> (\<lambda>s'. map_option m_pendingReadJobs (heap s' 3)) = Some (- 1) \<and>
   readJobFinished one_dir 3 \<bind> (\<lambda>s'. map_option m_pendingReadJobs (heap s' 2)) = Some (- 1) \<and>
   run_jobs one_dir [(Added, 3), (Finished, 2), (Finished, 3), (Finished, 3)]
      \<bind> (\<lambda>s'. map_option m_pendingReadJobs (heap s' 3)) = Some (- 1)"
proof -
  have p: "m_pendingReadJobs (DirInfo_asDotEntry (FileInfo_new [] Other 0 0 0 (Some 2))) = 0"
    by (simp add: DirInfo_asDotEntry_def init_def)
  let ?evs = "[(Added, 3), (Finished, 2), (Finished, 3), (Finished, 3)] :: (job_event \<times> addr) list"
  note inst = readJobFinished_unbounded[OF one_dir_3 one_dir_ancestors(2)]
  from inst p one_dir_2
  obtain s1 where s1: "readJobFinished one_dir 3 = Some s1"
    "map_option m_pendingReadJobs (heap s1 3) = Some (- 1)"
    "map_option m_pendingReadJobs (heap s1 2) = Some (- 1)"
    by (auto simp: init_def)
  have "\<forall>e\<in>set ?evs. ancestors one_dir (snd e) \<noteq> None"
    by (simp add: one_dir_ancestors)
  with inst
  obtain s2 where s2: "run_jobs one_dir ?evs = Some s2"
    "map_option m_pendingReadJobs (heap s2 3) =
          Some (m_pendingReadJobs (DirInfo_asDotEntry (FileInfo_new [] Other 0 0 0 (Some 2)))
                + attributed one_dir 3 Added ?evs - attributed one_dir 3 Finished ?evs)"
    by blast
  from s2(2) have "map_option m_pendingReadJobs (heap s2 3) = Some (- 1)"
    by (simp add: p attributed_def on_path_def one_dir_ancestors)
  with s1 s2(1) show ?thesis
    by (simp del: run_jobs.simps)
qed

section \<open>Unlinking a child\<close>

lemma follow_upd_notin:
  "follow fld s p = Some cs \<Longrightarrow> x \<notin> set cs \<Longrightarrow> follow fld (upd x f s) p = Some cs"
  by (induction cs arbitrary: p) (auto simp: follow_Cons_iff)

lemma children_Some:
  "children s a = Some cs \<longleftrightarrow> (\<exists>n. heap s a = Some n \<and> follow m_next s (m_firstChild n) = Some cs)"
  by (auto simp: children_def split: bind_splits)

lemma unlink_scan_unfold:
  "unlink_scan s a c (Some ch) =
     (case heap s ch of None \<Rightarrow> None
      | Some chn \<Rightarrow>
          if m_next chn = Some c
          then (case heap s c of None \<Rightarrow> None
                | Some e \<Rightarrow> Some (upd ch (\<lambda>y. y\<lparr>m_next := m_next e\<rparr>) s))
          else unlink_scan s a c (m_next chn))"
  by (subst unlink_scan.simps) (simp split: option.splits bind_splits)

lemma unlink_scan_None:
  "unlink_scan s a c None = Some (s\<lparr>errors := errors s @ [CouldntUnlink c a]\<rparr>)"
  by (subst unlink_scan.simps) simp

text \<open>The scan finds nothing when the child is not behind the first element of the list.\<close>

lemma unlink_scan_absent:
  "follow m_next s p = Some cs \<Longrightarrow> c \<notin> set (tl cs) \<Longrightarrow>
   unlink_scan s a c p = Some (s\<lparr>errors := errors s @ [CouldntUnlink c a]\<rparr>)"
proof (induction cs arbitrary: p)
  case Nil
  then show ?case by (simp add: unlink_scan_None)
next
  case (Cons x cs)
  then obtain xn where x: "p = Some x" "heap s x = Some xn" "follow m_next s (m_next xn) = Some cs"
    by (auto simp: follow_Cons_iff)
  from Cons.prems(2) have notin: "c \<notin> set cs" by simp
  have "m_next xn \<noteq> Some c"
  proof
    assume "m_next xn = Some c"
    with x(3) notin show False by (cases cs) (auto simp: follow_Cons_iff)
  qed
  moreover from notin have "c \<notin> set (tl cs)" by (cases cs) auto
  ultimately show ?case using Cons.IH[OF x(3)] x
    by (simp add: unlink_scan_unfold)
qed

lemma unlink_scan_present:
  "follow m_next s p = Some cs \<Longrightarrow> c \<in> set (tl cs) \<Longrightarrow> heap s c = Some e \<Longrightarrow>
   \<exists>pred\<in>set cs.
     unlink_scan s a c p = Some (upd pred (\<lambda>y. y\<lparr>m_next := m_next e\<rparr>) s) \<and>
     follow m_next (upd pred (\<lambda>y. y\<lparr>m_next := m_next e\<rparr>) s) p = Some (remove1 c cs)"
proof (induction cs arbitrary: p)
  case Nil
  then show ?case by simp
next
  case (Cons x cs)
  let ?g = "\<lambda>y. y\<lparr>m_next := m_next e\<rparr>"
  from Cons.prems obtain xn where x: "p = Some x" "heap s x = Some xn"
    "follow m_next s (m_next xn) = Some cs"
    by (auto simp: follow_Cons_iff)
  from Cons.prems(2) have cin: "c \<in> set cs" by simp
  from x(2,3) have xnotin: "x \<notin> set cs" by (rule follow_notin)
  with cin have xc: "x \<noteq> c" by auto
  show ?case
  proof (cases "m_next xn = Some c")
    case True
    with x(3) Cons.prems(3) obtain cs' where cs': "cs = c # cs'"
      "follow m_next s (m_next e) = Some cs'"
      by (cases cs) (auto simp: follow_Cons_iff)
    from xnotin cs' have "follow m_next (upd x ?g s) (m_next e) = Some cs'"
      by (intro follow_upd_notin) auto
    with x True Cons.prems(3) cs' xc show ?thesis
      by (auto simp: unlink_scan_unfold follow_Cons_iff)
  next
    case False
    with x(3) cin have "c \<in> set (tl cs)"
      by (cases cs) (auto simp: follow_Cons_iff)
    from Cons.IH[OF x(3) this Cons.prems(3)] obtain pred where pred: "pred \<in> set cs"
      "unlink_scan s a c (m_next xn) = Some (upd pred ?g s)"
      "follow m_next (upd pred ?g s) (m_next xn) = Some (remove1 c cs)"
      by blast
    from pred(1) xnotin have "pred \<noteq> x" by auto
    with pred x False xc show ?thesis
      by (auto simp: unlink_scan_unfold follow_Cons_iff)
  qed
qed

text \<open>
  C9: \<^verbatim>\<open>unlinkChild\<close> changes nothing but the error log when the child's recorded parent is
  another object, and when the parent is right but the child is not in the children list;
  when the child is in the list, it returns with exactly this child removed from the list
  (the others stay, in their order), nothing logged, and one object of the store changed.
\<close>

theorem unlinkChild_cases:
  assumes "heap s a = Some n" and "heap s c = Some e"
  shows "(m_parent e \<noteq> Some a \<longrightarrow>
            unlinkChild s a c = Some (s\<lparr>errors := errors s @ [NotAChild c a]\<rparr>)) \<and>
         (\<forall>cs. m_parent e = Some a \<and> children s a = Some cs \<and> c \<notin> set cs \<longrightarrow>
            unlinkChild s a c = Some (s\<lparr>errors := errors s @ [CouldntUnlink c a]\<rparr>)) \<and>
         (\<forall>cs. m_parent e = Some a \<and> children s a = Some cs \<and> c \<in> set cs \<longrightarrow>
            (\<exists>s'. unlinkChild s a c = Some s' \<and>
                  children s' a = Some (remove1 c cs) \<and>
                  c \<notin> set (remove1 c cs) \<and>
                  errors s' = errors s \<and>
                  (\<exists>x\<in>set (a # cs). \<forall>y. y \<noteq> x \<longrightarrow> heap s' y = heap s y)))"
proof (intro conjI allI impI)
  assume "m_parent e \<noteq> Some a"
  with assms show "unlinkChild s a c = Some (s\<lparr>errors := errors s @ [NotAChild c a]\<rparr>)"
    by (simp add: unlinkChild_def)
next
  fix cs
  assume h: "m_parent e = Some a \<and> children s a = Some cs \<and> c \<notin> set cs"
  with assms have f: "follow m_next s (m_firstChild n) = Some cs"
    by (simp add: children_Some)
  from h have "c \<notin> set (tl cs)" by (cases cs) auto
  from unlink_scan_absent[OF f this] f h assms
  show "unlinkChild s a c = Some (s\<lparr>errors := errors s @ [CouldntUnlink c a]\<rparr>)"
    by (cases cs) (auto simp: unlinkChild_def follow_Cons_iff)
next
  fix cs
  assume h: "m_parent e = Some a \<and> children s a = Some cs \<and> c \<in> set cs"
  with assms have f: "follow m_next s (m_firstChild n) = Some cs"
    by (simp add: children_Some)
  from f have d: "distinct cs" by (rule follow_distinct)
  then have gone: "c \<notin> set (remove1 c cs)" by simp
  show "\<exists>s'. unlinkChild s a c = Some s' \<and>
                  children s' a = Some (remove1 c cs) \<and>
                  c \<notin> set (remove1 c cs) \<and>
                  errors s' = errors s \<and>
                  (\<exists>x\<in>set (a # cs). \<forall>y. y \<noteq> x \<longrightarrow> heap s' y = heap s y)"
  proof (cases "Some c = m_firstChild n")
    case True
    with f assms obtain cs' where cs': "cs = c # cs'" "follow m_next s (m_next e) = Some cs'"
      by (cases cs) (auto simp: follow_Cons_iff)
    let ?s' = "upd a (\<lambda>x. x\<lparr>m_firstChild := m_next e\<rparr>) s"
    have "unlinkChild s a c = Some ?s'"
      using assms h True by (simp add: unlinkChild_def)
    moreover have "children ?s' a = Some (remove1 c cs)"
      using assms cs' by (simp add: children_Some follow_upd)
    ultimately show ?thesis using gone by auto
  next
    case False
    with f h have "c \<in> set (tl cs)" by (cases cs) (auto simp: follow_Cons_iff)
    from unlink_scan_present[OF f this assms(2)] obtain pred where pred: "pred \<in> set cs"
      "unlink_scan s a c (m_firstChild n) = Some (upd pred (\<lambda>y. y\<lparr>m_next := m_next e\<rparr>) s)"
      "follow m_next (upd pred (\<lambda>y. y\<lparr>m_next := m_next e\<rparr>) s) (m_firstChild n)
         = Some (remove1 c cs)"
      by blast
    let ?s' = "upd pred (\<lambda>y. y\<lparr>m_next := m_next e\<rparr>) s"
    have "unlinkChild s a c = Some ?s'"
      using assms h False pred(2) by (simp add: unlinkChild_def)
    moreover have "children ?s' a = Some (remove1 c cs)"
      using assms pred(3) by (auto simp: children_Some)
    ultimately show ?thesis using gone pred(1) by auto
  qed
qed

section \<open>Insertion: properties\<close>

lemma add_child_cong:
  "m_size e' = m_size e \<Longrightarrow> m_blocks e' = m_blocks e \<Longrightarrow> m_mtime e' = m_mtime e \<Longrightarrow>
   m_mode e' = m_mode e \<Longrightarrow> add_child e' = add_child e"
  by (simp add: add_child_def fun_eq_iff isDir_def isFile_def)

lemma add_child_fields [simp]:
  "m_size (add_child e x) = m_size x" "m_blocks (add_child e x) = m_blocks x"
  "m_mtime (add_child e x) = m_mtime x" "m_mode (add_child e x) = m_mode x"
  "m_parent (add_child e x) = m_parent x" "m_next (add_child e x) = m_next x"
  "m_firstChild (add_child e x) = m_firstChild x" "m_dotEntry (add_child e x) = m_dotEntry x"
  "m_summaryDirty (add_child e x) = m_summaryDirty x" "m_isDotEntry (add_child e x) = m_isDotEntry x"
  "isDirInfo (add_child e x) = isDirInfo x"
  by (simp_all add: add_child_def)

lemma child_delta_fields [simp]:
  "m_size (child_delta e x) = m_size x" "m_blocks (child_delta e x) = m_blocks x"
  "m_mtime (child_delta e x) = m_mtime x" "m_mode (child_delta e x) = m_mode x"
  "m_parent (child_delta e x) = m_parent x" "m_next (child_delta e x) = m_next x"
  "m_firstChild (child_delta e x) = m_firstChild x" "m_dotEntry (child_delta e x) = m_dotEntry x"
  "m_summaryDirty (child_delta e x) = m_summaryDirty x" "m_isDotEntry (child_delta e x) = m_isDotEntry x"
  "isDirInfo (child_delta e x) = isDirInfo x"
  by (simp_all add: child_delta_def)

lemma upd_child_delta:
  "heap s a = Some n \<Longrightarrow>
   upd a (child_delta e) s = (if m_summaryDirty n then s else upd a (add_child e) s)"
  by (rule state_eqI) (auto simp: fun_eq_iff child_delta_def)

lemma childAdded_unfold:
  "heap s a = Some n \<Longrightarrow> heap s c = Some e \<Longrightarrow>
   childAdded s a c =
     (case m_parent n of
        Some p \<Rightarrow> childAdded (upd a (child_delta e) s) p c
      | None \<Rightarrow> Some (upd a (child_delta e) s))"
  by (subst childAdded.simps) (simp add: upd_child_delta split: option.splits)

text \<open>Along a parent chain that ends, every object is updated once.\<close>

lemma childAdded_path:
  "ancestors s a = Some ps \<Longrightarrow> heap s c = Some e' \<Longrightarrow>
   m_size e' = m_size e \<Longrightarrow> m_blocks e' = m_blocks e \<Longrightarrow> m_mtime e' = m_mtime e \<Longrightarrow>
   m_mode e' = m_mode e \<Longrightarrow>
   childAdded s a c = Some (upd_each (a # ps) (child_delta e) s)"
proof (induction ps arbitrary: s a e')
  case Nil
  then obtain n where n: "heap s a = Some n" "m_parent n = None"
    by (auto simp: ancestors_Nil)
  have "child_delta e' = child_delta e"
    using add_child_cong[of e' e] Nil.prems by (simp add: child_delta_def fun_eq_iff)
  with n Nil.prems show ?case
    by (simp add: childAdded_unfold upd_each_single)
next
  case (Cons p ps)
  from Cons.prems obtain n where n: "heap s a = Some n" "m_parent n = Some p"
    and p: "ancestors s p = Some ps"
    by (auto simp: ancestors_Cons)
  have eq: "child_delta e' = child_delta e"
    using add_child_cong[of e' e] Cons.prems by (simp add: child_delta_def fun_eq_iff)
  from Cons.prems(1) have notin: "a \<notin> set (p # ps)" by (rule ancestors_distinct)
  let ?s1 = "upd a (child_delta e) s"
  have anc: "ancestors ?s1 p = Some ps" using p by (simp add: ancestors_upd)
  obtain e'' where e'': "heap ?s1 c = Some e''" "m_size e'' = m_size e" "m_blocks e'' = m_blocks e"
    "m_mtime e'' = m_mtime e" "m_mode e'' = m_mode e"
    using Cons.prems by (cases "c = a") auto
  from Cons.IH[OF anc e''] n notin Cons.prems(2) eq show ?case
    by (simp add: childAdded_unfold upd_each_Cons)
qed

lemma link_child_heap:
  "heap s a = Some n \<Longrightarrow> heap s c = Some e \<Longrightarrow>
   heap (link_child a c s) =
     (if c = a then (heap s)(a \<mapsto> n\<lparr>m_next := m_firstChild n, m_firstChild := Some c, m_parent := Some a\<rparr>)
      else (heap s)(a \<mapsto> n\<lparr>m_firstChild := Some c\<rparr>,
                    c \<mapsto> e\<lparr>m_next := m_firstChild n, m_parent := Some a\<rparr>))"
  by (auto simp: link_child_def Let_def fun_eq_iff)

lemma link_child_other [simp]:
  "errors (link_child a c s) = errors s"
  "finalizeLocal_sent (link_child a c s) = finalizeLocal_sent s"
  "recalc_calls (link_child a c s) = recalc_calls s"
  by (simp_all add: link_child_def Let_def)

lemma insertChild_unfold:
  "heap s a = Some n \<Longrightarrow> heap s c = Some e \<Longrightarrow>
   insertChild s a c =
     (if isDir e \<or> m_dotEntry n = None \<or> m_isDotEntry n
      then childAdded (link_child a c s) a c
      else insertChild s (the (m_dotEntry n)) c)"
  by (subst insertChild.simps) (auto split: option.splits)

text \<open>Linking a new child that is none of the ancestors leaves the parent chain as it was.\<close>

lemma ancestors_link_child:
  assumes "ancestors s a = Some ps" and "c \<notin> set (a # ps)" and "heap s c = Some e"
  shows "ancestors (link_child a c s) a = Some ps"
proof -
  from assms(1) obtain n where n: "heap s a = Some n" "follow m_parent s (m_parent n) = Some ps"
    by (auto simp: ancestors_def split: bind_splits)
  let ?s1 = "upd a (\<lambda>x. x\<lparr>m_firstChild := Some c\<rparr>) (upd c (\<lambda>x. x\<lparr>m_next := m_firstChild n\<rparr>) s)"
  have l: "link_child a c s = upd c (\<lambda>x. x\<lparr>m_parent := Some a\<rparr>) ?s1"
    using n by (simp add: link_child_def Let_def)
  have "follow m_parent ?s1 (m_parent n) = Some ps"
    using n(2) by (simp add: follow_upd)
  from follow_upd_notin[OF this, of c] assms(2)
  have "follow m_parent (link_child a c s) (m_parent n) = Some ps"
    unfolding l by simp
  with n assms(2,3) show ?thesis
    by (auto simp: ancestors_def link_child_heap)
qed

lemma children_link_child:
  assumes "heap s a = Some n" and "heap s c = Some e" and "children s a = Some cs"
    and "c \<notin> set cs" 
  shows "children (link_child a c s) a = Some (c # cs)"
proof -
  from assms have f: "follow m_next s (m_firstChild n) = Some cs"
    by (simp add: children_Some)
  let ?s1 = "upd c (\<lambda>x. x\<lparr>m_next := m_firstChild n\<rparr>) s"
  let ?s2 = "upd a (\<lambda>x. x\<lparr>m_firstChild := Some c\<rparr>) ?s1"
  have l: "link_child a c s = upd c (\<lambda>x. x\<lparr>m_parent := Some a\<rparr>) ?s2"
    using assms(1) by (simp add: link_child_def Let_def)
  from f assms(4) have "follow m_next ?s1 (m_firstChild n) = Some cs"
    by (rule follow_upd_notin)
  then have "follow m_next (link_child a c s) (m_firstChild n) = Some cs"
    unfolding l by (simp add: follow_upd)
  with assms show ?thesis
    by (auto simp: children_Some link_child_heap follow_Cons_iff)
qed

lemma children_agree:
  assumes "\<And>x. map_option m_next (heap t x) = map_option m_next (heap s x)"
    and "map_option m_firstChild (heap t a) = map_option m_firstChild (heap s a)"
  shows "children t a = children s a"
proof -
  have "follow m_next t p = follow m_next s p" for p
    by (rule follow_agree) (rule assms(1))
  with assms(2) show ?thesis
    by (cases "heap s a"; cases "heap t a") (auto simp: children_def)
qed

lemma children_upd_each:
  "(\<And>n. m_next (f n) = m_next n) \<Longrightarrow> (\<And>n. m_firstChild (f n) = m_firstChild n) \<Longrightarrow>
   children (upd_each xs f s) a = children s a"
  by (rule children_agree) (auto simp: option.map_comp comp_def)

lemma children_link_child_other:
  assumes "heap s a = Some n" and "heap s c = Some e" and "children s b = Some cs"
    and "c \<notin> set cs" and "b \<noteq> a" and "b \<noteq> c"
  shows "children (link_child a c s) b = Some cs"
proof -
  from assms(3) obtain m where m: "heap s b = Some m" "follow m_next s (m_firstChild m) = Some cs"
    by (auto simp: children_Some)
  let ?s1 = "upd c (\<lambda>x. x\<lparr>m_next := m_firstChild n\<rparr>) s"
  let ?s2 = "upd a (\<lambda>x. x\<lparr>m_firstChild := Some c\<rparr>) ?s1"
  have l: "link_child a c s = upd c (\<lambda>x. x\<lparr>m_parent := Some a\<rparr>) ?s2"
    using assms(1) by (simp add: link_child_def Let_def)
  from m(2) assms(4) have "follow m_next ?s1 (m_firstChild m) = Some cs"
    by (rule follow_upd_notin)
  then have "follow m_next (link_child a c s) (m_firstChild m) = Some cs"
    unfolding l by (simp add: follow_upd)
  with assms m show ?thesis
    by (auto simp: children_Some link_child_heap)
qed

lemma links_add_child [simp]: "links (add_child e x) = links x"
  by (simp add: links_def)

lemma childAdded_links:
  assumes major: "childAdded s a c = Some s'"
  shows "\<forall>x. map_option links (heap s' x) = map_option links (heap s x)"
proof (rule childAdded.raw_induct[where P = "\<lambda>s a c s'.
    \<forall>x. map_option links (heap s' x) = map_option links (heap s x)", OF _ major])
  fix ca s a c s'
  assume IH: "\<And>s a c s'. ca s a c = Some s' \<Longrightarrow>
      \<forall>x. map_option links (heap s' x) = map_option links (heap s x)"
    and body: "heap s a \<bind>
      (\<lambda>n. (if \<not> m_summaryDirty n
            then heap s c \<bind> (\<lambda>c. Some (upd a (add_child c) s))
            else Some s) \<bind>
           (\<lambda>s1. case m_parent n of None \<Rightarrow> Some s1 | Some p \<Rightarrow> ca s1 p c)) = Some s'"
  from body obtain n s1 where n: "heap s a = Some n"
    and s1: "s1 = s \<or> (\<exists>e. s1 = upd a (add_child e) s)"
    and rest: "(case m_parent n of None \<Rightarrow> Some s1 | Some p \<Rightarrow> ca s1 p c) = Some s'"
    by (auto split: bind_splits if_splits)
  from s1 have 1: "\<forall>x. map_option links (heap s1 x) = map_option links (heap s x)"
    by (auto simp: option.map_comp comp_def)
  from rest have "\<forall>x. map_option links (heap s' x) = map_option links (heap s1 x)"
    by (cases "m_parent n") (auto dest: IH)
  with 1 show "\<forall>x. map_option links (heap s' x) = map_option links (heap s x)"
    by simp
qed

lemmas eval_defs = DirInfo_new_def empty_state_def DirInfo_asDotEntry_def
  FileInfo_new_def init_def upd_def Let_def alloc_def link_child_def add_child_def isDir_def
  isFile_def child_delta_def upd_each_def one_dir_def with_file_def one_file_def

lemma with_file_facts:
  "heap with_file 2 = heap one_dir 2" "heap with_file 3 = heap one_dir 3"
  "heap with_file 4 = Some (FileInfo_new ''F1'' Regular 100 0 0 (Some 2))"
  "ancestors with_file 3 = Some [2]" "ancestors with_file 2 = Some []"
  "children with_file 2 = Some []" "children with_file 3 = Some []"
  by (simp_all add: ancestors_def children_def follow_Some eval_defs)

lemma one_file_facts:
  "map_option m_parent (heap one_file 4) = Some (Some 3)"
  "children one_file 3 = Some [4]" "children one_file 2 = Some []"
  "heap one_file 2 \<noteq> None" "heap one_file 3 \<noteq> None" "heap one_file 4 \<noteq> None"
  by (simp_all add: children_def follow_Some eval_defs)

theorem unlinkChild_cases_witness:
  "unlinkChild one_file 2 4 = Some (one_file\<lparr>errors := errors one_file @ [NotAChild 4 2]\<rparr>) \<and>
   unlinkChild with_file 2 4 = Some (with_file\<lparr>errors := errors with_file @ [CouldntUnlink 4 2]\<rparr>) \<and>
   (\<exists>s'. unlinkChild one_file 3 4 = Some s' \<and> children s' 3 = Some [] \<and>
         errors s' = errors one_file)"
proof -
  obtain n2 n3 n4 where h: "heap one_file 2 = Some n2" "heap one_file 3 = Some n3"
    "heap one_file 4 = Some n4"
    using one_file_facts by auto
  with one_file_facts have p: "m_parent n4 = Some 3" by simp
  from unlinkChild_cases[OF h(1) h(3)] p
  have 1: "unlinkChild one_file 2 4 = Some (one_file\<lparr>errors := errors one_file @ [NotAChild 4 2]\<rparr>)"
    by simp
  have w: "heap with_file 2 = Some ((init ((FileInfo_new ''R'' Directory 0 0 0 None)\<lparr>isDirInfo := True\<rparr>))
             \<lparr>m_isDotEntry := False, m_dotEntry := Some 3\<rparr>)"
    "heap with_file 4 = Some (FileInfo_new ''F1'' Regular 100 0 0 (Some 2))"
    by (simp_all add: with_file_facts one_dir_2)
  from unlinkChild_cases[OF w] with_file_facts
  have 2: "unlinkChild with_file 2 4 = Some (with_file\<lparr>errors := errors with_file @ [CouldntUnlink 4 2]\<rparr>)"
    by (simp add: FileInfo_new_def)
  from unlinkChild_cases[OF h(2) h(3)] p one_file_facts
  have 3: "\<exists>s'. unlinkChild one_file 3 4 = Some s' \<and> children s' 3 = Some [] \<and>
         errors s' = errors one_file"
    by auto
  from 1 2 3 show ?thesis by blast
qed

section \<open>Accessors of a clean summary\<close>

lemma exec_Accessor_clean:
  "heap s a = Some n \<Longrightarrow> isDirInfo n \<Longrightarrow> \<not> m_summaryDirty n \<Longrightarrow>
   exec (Accessor f a) s = Some (cached f n, s)"
  by (subst exec.simps) simp

lemma exec_Accessor_plain:
  "heap s a = Some n \<Longrightarrow> \<not> isDirInfo n \<Longrightarrow> exec (Accessor f a) s = Some (own f n, s)"
  by (subst exec.simps) simp

section \<open>The finalize pass: properties\<close>

lemma follow_agree_on:
  "follow fld s p = Some cs \<Longrightarrow>
   (\<And>x. x \<in> set cs \<Longrightarrow> map_option fld (heap t x) = map_option fld (heap s x)) \<Longrightarrow>
   follow fld t p = Some cs"
proof (induction cs arbitrary: p)
  case Nil
  then show ?case by simp
next
  case (Cons c cs)
  then obtain n where n: "p = Some c" "heap s c = Some n" "follow fld s (fld n) = Some cs"
    by (auto simp: follow_Cons_iff)
  from Cons.prems(2)[of c] n(2) obtain m where m: "heap t c = Some m" "fld m = fld n"
    by (cases "heap t c") auto
  from Cons.IH[OF n(3)] Cons.prems(2) have "follow fld t (fld n) = Some cs" by simp
  with m n(1) show ?case by (simp add: follow_Cons_iff)
qed

lemma reparent_loop_list:
  "follow m_next s p = Some cs \<Longrightarrow>
   reparent_loop s a p = Some (upd_each cs (\<lambda>x. x\<lparr>m_parent := Some a\<rparr>) s)"
proof (induction cs arbitrary: s p)
  case Nil
  then have "p = None" by simp
  moreover have "upd_each [] (\<lambda>x. x\<lparr>m_parent := Some a\<rparr>) s = s"
    by (rule state_eqI) simp_all
  ultimately show ?case by (subst reparent_loop.simps) simp
next
  case (Cons c cs)
  let ?g = "\<lambda>x. x\<lparr>m_parent := Some a\<rparr>"
  from Cons.prems obtain cn where c: "p = Some c" "heap s c = Some cn"
    "follow m_next s (m_next cn) = Some cs"
    by (auto simp: follow_Cons_iff)
  from c(2,3) have notin: "c \<notin> set cs" by (rule follow_notin)
  from c(3) have "follow m_next (upd c ?g s) (m_next cn) = Some cs"
    by (simp add: follow_upd)
  from Cons.IH[OF this] c notin show ?case
    by (subst reparent_loop.simps) (simp add: upd_each_Cons)
qed

text \<open>Deleting a directory object without children and without dot entry frees it.\<close>

lemma delete_obj_empty:
  "heap s d = Some dn \<Longrightarrow> m_firstChild dn = None \<Longrightarrow> m_dotEntry dn = None \<Longrightarrow>
   delete_obj s d = Some (free d s)"
proof -
  assume h: "heap s d = Some dn" "m_firstChild dn = None" "m_dotEntry dn = None"
  have "free d (upd d (\<lambda>x. x\<lparr>m_beingDestroyed := True\<rparr>) s) = free d s"
    by (rule state_eqI) simp_all
  with h show ?thesis
    by (simp add: delete_obj_def) (subst destroy_from.simps, simp)
qed

lemma cleanupDotEntries_reparent:
  assumes a: "heap s a = Some n" "\<not> m_isDotEntry n" "m_dotEntry n = Some d" "m_firstChild n = None"
    and d: "heap s d = Some dn" "m_dotEntry dn = None" "children s d = Some ds"
    and sep: "a \<noteq> d" "d \<notin> set ds" "a \<notin> set ds"
  shows "cleanupDotEntries s a = Some (reparented a d (m_firstChild dn) ds s)"
proof -
  let ?g = "\<lambda>x. x\<lparr>m_parent := Some a\<rparr>"
  let ?sa = "upd a (\<lambda>x. x\<lparr>m_firstChild := m_firstChild dn\<rparr>) s"
  let ?sb = "upd d (\<lambda>x. x\<lparr>m_firstChild := None\<rparr>) ?sa"
  let ?s1 = "upd_each ds ?g ?sb"
  from d have f: "follow m_next s (m_firstChild dn) = Some ds"
    by (simp add: children_Some)
  then have "follow m_next ?sb (m_firstChild dn) = Some ds"
    by (simp add: follow_upd)
  then have loop: "reparent_loop ?sb a (m_firstChild dn) = Some ?s1"
    by (rule reparent_loop_list)
  have d1: "heap ?s1 d = Some (dn\<lparr>m_firstChild := None\<rparr>)"
    using d sep by simp
  have del: "delete_obj ?s1 d = Some (free d ?s1)"
    by (rule delete_obj_empty[OF d1]) (simp_all add: d(2))
  have a1: "heap (free d ?s1) a = Some (n\<lparr>m_firstChild := m_firstChild dn\<rparr>)"
    using a sep by simp
  have fin: "upd a (\<lambda>x. x\<lparr>m_dotEntry := None\<rparr>) (free d ?s1) = reparented a d (m_firstChild dn) ds s"
    using a sep by (intro state_eqI) (auto simp: reparented_def fun_eq_iff)
  show ?thesis
    using a d(1) sep loop d1 del a1 fin
    by (simp add: cleanupDotEntries_def)
qed

lemma cleanupDotEntries_drop_empty:
  assumes a: "heap s a = Some n" "\<not> m_isDotEntry n" "m_dotEntry n = Some d" "m_firstChild n \<noteq> None"
    and d: "heap s d = Some dn" "m_dotEntry dn = None" "m_firstChild dn = None"
    and sep: "a \<noteq> d"
  shows "cleanupDotEntries s a = Some (upd a (\<lambda>x. x\<lparr>m_dotEntry := None\<rparr>) (free d s))"
proof -
  from a(4) obtain fc where "m_firstChild n = Some fc" by auto
  with a d sep show ?thesis
    by (simp add: cleanupDotEntries_def delete_obj_empty)
qed

lemma cleanupDotEntries_keep:
  assumes a: "heap s a = Some n" "\<not> m_isDotEntry n" "m_dotEntry n = Some d" "m_firstChild n \<noteq> None"
    and d: "heap s d = Some dn" "m_firstChild dn \<noteq> None"
  shows "cleanupDotEntries s a = Some s"
proof -
  from a(4) d(2) obtain fc fd where "m_firstChild n = Some fc" "m_firstChild dn = Some fd"
    by auto
  with a d show ?thesis
    by (simp add: cleanupDotEntries_def)
qed

lemma finalizeAll_no_children:
  "heap s a = Some n \<Longrightarrow> \<not> m_isDotEntry n \<Longrightarrow> m_firstChild n = None \<Longrightarrow>
   finalizeAll s a = cleanupDotEntries (s\<lparr>finalizeLocal_sent := finalizeLocal_sent s @ [a]\<rparr>) a"
  unfolding finalizeAll_def by (subst finalizeAll_from.simps) (simp add: finalizeLocal_def)

lemma children_reparented:
  assumes "children s d = Some ds" and "heap s d = Some dn" and "heap s a = Some n"
    and "d \<notin> set ds" and "a \<noteq> d"
  shows "children (reparented a d (m_firstChild dn) ds s) a = Some ds"
proof -
  from assms have f: "follow m_next s (m_firstChild dn) = Some ds"
    by (simp add: children_Some)
  have "follow m_next (reparented a d (m_firstChild dn) ds s) (m_firstChild dn) = Some ds"
    using f
  proof (rule follow_agree_on)
    fix x assume "x \<in> set ds"
    with assms(4) show "map_option m_next (heap (reparented a d (m_firstChild dn) ds s) x)
        = map_option m_next (heap s x)"
      by (auto simp: reparented_def option.map_comp comp_def)
  qed
  with assms show ?thesis
    by (simp add: children_Some reparented_def)
qed

lemma reparented_heap:
  "heap (reparented a d first ds s) d = None"
  "a \<noteq> d \<Longrightarrow> heap (reparented a d first ds s) a =
      map_option (\<lambda>n. n\<lparr>m_firstChild := first, m_dotEntry := None\<rparr>) (heap s a)"
  "c \<in> set ds \<Longrightarrow> c \<noteq> a \<Longrightarrow> c \<noteq> d \<Longrightarrow>
     heap (reparented a d first ds s) c = map_option (\<lambda>n. n\<lparr>m_parent := Some a\<rparr>) (heap s c)"
  "x \<notin> set (a # d # ds) \<Longrightarrow> heap (reparented a d first ds s) x = heap s x"
  by (simp_all add: reparented_def)

lemma reparented_sent:
  "reparented a d first ds (s\<lparr>finalizeLocal_sent := xs\<rparr>) =
   (reparented a d first ds s)\<lparr>finalizeLocal_sent := xs\<rparr>"
  by (rule state_eqI) (auto simp: reparented_def fun_eq_iff)

lemma children_sent [simp]: "children (s\<lparr>finalizeLocal_sent := xs\<rparr>) a = children s a"
  by (rule children_agree) simp_all

text \<open>
  C5: on a directory \<open>a\<close> that is no dot entry and owns the dot entry \<open>d\<close>, where (as
  \<^verbatim>\<open>insertChild\<close> keeps it) only directories are direct children: if \<open>a\<close> has no direct
  subdirectory, \<^verbatim>\<open>cleanupDotEntries\<close> makes the children \<open>ds\<close> of the dot entry the children of
  \<open>a\<close>, each with parent \<open>a\<close>, deletes the dot entry and clears \<open>a\<close>'s reference to it, and
  \<^verbatim>\<open>finalizeAll\<close> does the same after notifying the tree; if \<open>a\<close> has subdirectories, an
  empty dot entry is deleted and the reference cleared, and a dot entry with children stays.
\<close>

theorem cleanupDotEntries_reparents:
  assumes "heap s a = Some n" and "\<not> m_isDotEntry n" and "m_dotEntry n = Some d"
    and "heap s d = Some dn" and "m_dotEntry dn = None"
    and "children s a = Some cs" and "children s d = Some ds"
    and "a \<noteq> d" and "d \<notin> set ds" and "a \<notin> set ds"
    and "subdirs s cs = cs"
  shows
    "(subdirs s cs = [] \<longrightarrow>
        (\<exists>s'. cleanupDotEntries s a = Some s' \<and>
              finalizeAll s a = Some (s'\<lparr>finalizeLocal_sent := finalizeLocal_sent s @ [a]\<rparr>) \<and>
              heap s' d = None \<and>
              heap s' a = Some (n\<lparr>m_firstChild := m_firstChild dn, m_dotEntry := None\<rparr>) \<and>
              children s' a = Some ds \<and>
              (\<forall>c\<in>set ds. heap s' c = map_option (\<lambda>e. e\<lparr>m_parent := Some a\<rparr>) (heap s c)) \<and>
              (\<forall>x. x \<notin> set (a # d # ds) \<longrightarrow> heap s' x = heap s x))) \<and>
     (subdirs s cs \<noteq> [] \<and> ds = [] \<longrightarrow>
        (\<exists>s'. cleanupDotEntries s a = Some s' \<and> heap s' d = None \<and>
              heap s' a = Some (n\<lparr>m_dotEntry := None\<rparr>) \<and>
              (\<forall>x. x \<notin> set [a, d] \<longrightarrow> heap s' x = heap s x))) \<and>
     (subdirs s cs \<noteq> [] \<and> ds \<noteq> [] \<longrightarrow> cleanupDotEntries s a = Some s)"
proof -
  from assms(1,6) have fc: "m_firstChild n = None \<longleftrightarrow> cs = []"
    by (auto simp: children_Some)
  from assms(4,7) have fd: "m_firstChild dn = None \<longleftrightarrow> ds = []"
    by (auto simp: children_Some)
  let ?t = "s\<lparr>finalizeLocal_sent := finalizeLocal_sent s @ [a]\<rparr>"
  let ?s' = "reparented a d (m_firstChild dn) ds s"
  have A: "\<exists>s'. cleanupDotEntries s a = Some s' \<and>
              finalizeAll s a = Some (s'\<lparr>finalizeLocal_sent := finalizeLocal_sent s @ [a]\<rparr>) \<and>
              heap s' d = None \<and>
              heap s' a = Some (n\<lparr>m_firstChild := m_firstChild dn, m_dotEntry := None\<rparr>) \<and>
              children s' a = Some ds \<and>
              (\<forall>c\<in>set ds. heap s' c = map_option (\<lambda>e. e\<lparr>m_parent := Some a\<rparr>) (heap s c)) \<and>
              (\<forall>x. x \<notin> set (a # d # ds) \<longrightarrow> heap s' x = heap s x)"
    if "subdirs s cs = []"
  proof -
    from that assms(11) fc have nofirst: "m_firstChild n = None" by simp
    have 1: "cleanupDotEntries s a = Some ?s'"
      by (rule cleanupDotEntries_reparent[OF assms(1-3) nofirst assms(4,5,7-10)])
    have "children ?t d = Some ds" using assms(7) by simp
    then have "cleanupDotEntries ?t a = Some (reparented a d (m_firstChild dn) ds ?t)"
      using assms nofirst by (intro cleanupDotEntries_reparent) simp_all
    with assms(1,2) nofirst
    have 2: "finalizeAll s a = Some (?s'\<lparr>finalizeLocal_sent := finalizeLocal_sent s @ [a]\<rparr>)"
      by (simp add: finalizeAll_no_children reparented_sent)
    have 3: "children ?s' a = Some ds"
      using assms by (intro children_reparented) simp_all
    have 4: "\<forall>c\<in>set ds. heap ?s' c = map_option (\<lambda>e. e\<lparr>m_parent := Some a\<rparr>) (heap s c)"
      using assms(9,10) by (auto simp: reparented_def)
    from 1 2 3 4 assms(1,8) show ?thesis
      by (auto simp: reparented_heap)
  qed
  have B: "\<exists>s'. cleanupDotEntries s a = Some s' \<and> heap s' d = None \<and>
              heap s' a = Some (n\<lparr>m_dotEntry := None\<rparr>) \<and>
              (\<forall>x. x \<notin> set [a, d] \<longrightarrow> heap s' x = heap s x)"
    if "subdirs s cs \<noteq> [] \<and> ds = []"
  proof -
    from that assms(11) fc fd have "m_firstChild n \<noteq> None" "m_firstChild dn = None" by auto
    from cleanupDotEntries_drop_empty[OF assms(1-3) this(1) assms(4,5) this(2) assms(8)]
      assms(1,8)
    show ?thesis by simp
  qed
  have C: "cleanupDotEntries s a = Some s" if "subdirs s cs \<noteq> [] \<and> ds \<noteq> []"
  proof -
    from that assms(11) fc fd have "m_firstChild n \<noteq> None" "m_firstChild dn \<noteq> None" by auto
    from cleanupDotEntries_keep[OF assms(1-3) this(1) assms(4) this(2)] show ?thesis .
  qed
  from A B C show ?thesis by blast
qed

theorem cleanupDotEntries_reparents_witness:
  "subdirs one_file [] = [] \<and> children one_file 3 = Some [4] \<and>
   (\<exists>s'. cleanupDotEntries one_file 2 = Some s' \<and>
         finalizeAll one_file 2 = Some (s'\<lparr>finalizeLocal_sent := [2]\<rparr>) \<and>
         heap s' 3 = None \<and> children s' 2 = Some [4] \<and>
         map_option m_parent (heap s' 4) = Some (Some 2) \<and>
         map_option m_dotEntry (heap s' 2) = Some None)"
proof -
  obtain n dn where h: "heap one_file 2 = Some n" "heap one_file 3 = Some dn"
    using one_file_facts by auto
  have f: "\<not> m_isDotEntry n" "m_dotEntry n = Some 3" "m_dotEntry dn = None"
    using h by (auto simp: eval_defs)
  have sd: "subdirs one_file [] = []" by (simp add: subdirs_def)
  have p: "map_option m_parent (heap one_file 4) = Some (Some 3)"
    and sent: "finalizeLocal_sent one_file = []"
    by (simp_all add: eval_defs)
  from cleanupDotEntries_reparents[OF h(1) f(1,2) h(2) f(3) one_file_facts(3,2), THEN conjunct1] sd
  obtain s' where s': "cleanupDotEntries one_file 2 = Some s'"
    "finalizeAll one_file 2 = Some (s'\<lparr>finalizeLocal_sent := finalizeLocal_sent one_file @ [2]\<rparr>)"
    "heap s' 3 = None"
    "heap s' 2 = Some (n\<lparr>m_firstChild := m_firstChild dn, m_dotEntry := None\<rparr>)"
    "children s' 2 = Some [4]"
    "\<forall>c\<in>set [4]. heap s' c = map_option (\<lambda>e. e\<lparr>m_parent := Some 2\<rparr>) (heap one_file c)"
    by auto
  from s'(6) p have "map_option m_parent (heap s' 4) = Some (Some 2)"
    by (auto simp: option.map_comp comp_def)
  with s' sd sent one_file_facts(2) show ?thesis by simp
qed

section \<open>Recalculation: properties\<close>

lemma exec_Accessor_settled:
  "heap s a = Some n \<Longrightarrow> isDirInfo n \<longrightarrow> \<not> m_summaryDirty n \<Longrightarrow>
   exec (Accessor f a) s = Some (summary_val f n, s)"
  by (cases "isDirInfo n") (simp_all add: exec_Accessor_clean exec_Accessor_plain summary_val_def)

lemma exec_RecalcLoop_Nil:
  "exec (RecalcLoop a []) s = Some (0, upd a (\<lambda>x. x\<lparr>m_summaryDirty := False\<rparr>) s)"
  by (subst exec.simps) simp

lemma upd_upd: "upd a g (upd a f s) = upd a (g \<circ> f) s"
  by (rule state_eqI) (auto simp: fun_eq_iff option.map_comp)

lemma upd_cong: "heap s a = Some n \<Longrightarrow> f n = g n \<Longrightarrow> upd a f s = upd a g s"
  by (rule state_eqI) (auto simp: fun_eq_iff)

lemma exec_RecalcLoop_step:
  assumes first: "exec (Accessor TotalSize c) s = Some (v, s1)"
    and c: "heap s1 c = Some cn" "isDirInfo cn \<longrightarrow> \<not> m_summaryDirty cn" "v = summary_val TotalSize cn"
    and a: "heap s1 a = Some an" "a \<noteq> c"
  shows "exec (RecalcLoop a (c # rest)) s = exec (RecalcLoop a rest) (upd a (absorb cn) s1)"
proof -
  have acc: "exec (Accessor f c) (upd a g s1) = Some (summary_val f cn, upd a g s1)" for f g
    using c a by (intro exec_Accessor_settled) simp_all
  from a(2) have ca: "c \<noteq> a" by simp
  show ?thesis
    apply (subst exec.simps)
    apply (simp add: first c(3) acc upd_upd Let_def a c(1) ca del: cached.simps own.simps)
    apply (intro conjI impI arg_cong[where f = "exec (RecalcLoop a rest)"] upd_cong[OF a(1)])
           apply (simp_all add: absorb_def max_def)
    done
qed

subsection \<open>Skeletons\<close>

lemma skel_fields:
  "m_parent (skel n) = m_parent n" "m_next (skel n) = m_next n"
  "m_firstChild (skel n) = m_firstChild n" "m_dotEntry (skel n) = m_dotEntry n"
  "isDirInfo (skel n) = isDirInfo n" "m_size (skel n) = m_size n" "m_blocks (skel n) = m_blocks n"
  "m_mtime (skel n) = m_mtime n" "m_mode (skel n) = m_mode n"
  by (simp_all add: skel_def)

lemma skel_eqD:
  assumes "skel n' = skel n"
  shows "m_parent n' = m_parent n" "m_next n' = m_next n" "m_firstChild n' = m_firstChild n"
    "m_dotEntry n' = m_dotEntry n" "isDirInfo n' = isDirInfo n" "m_size n' = m_size n"
    "m_blocks n' = m_blocks n" "m_mtime n' = m_mtime n" "m_mode n' = m_mode n"
    "isDir n' = isDir n" "isFile n' = isFile n"
proof -
  have "m_parent (skel n') = m_parent (skel n)" "m_next (skel n') = m_next (skel n)"
    "m_firstChild (skel n') = m_firstChild (skel n)" "m_dotEntry (skel n') = m_dotEntry (skel n)"
    "isDirInfo (skel n') = isDirInfo (skel n)" "m_size (skel n') = m_size (skel n)"
    "m_blocks (skel n') = m_blocks (skel n)" "m_mtime (skel n') = m_mtime (skel n)"
    "m_mode (skel n') = m_mode (skel n)"
    by (simp_all only: assms)
  then show "m_parent n' = m_parent n" "m_next n' = m_next n" "m_firstChild n' = m_firstChild n"
    "m_dotEntry n' = m_dotEntry n" "isDirInfo n' = isDirInfo n" "m_size n' = m_size n"
    "m_blocks n' = m_blocks n" "m_mtime n' = m_mtime n" "m_mode n' = m_mode n"
    "isDir n' = isDir n" "isFile n' = isFile n"
    by (simp_all add: skel_fields isDir_def isFile_def)
qed

lemma same_skel_refl [simp]: "same_skel s s"
  by (simp add: same_skel_def)

lemma same_skel_trans: "same_skel s t \<Longrightarrow> same_skel t u \<Longrightarrow> same_skel s u"
  by (simp add: same_skel_def)

lemma same_skel_upd: "(\<And>n. skel (g n) = skel n) \<Longrightarrow> same_skel s (upd a g s)"
  by (simp add: same_skel_def option.map_comp comp_def)

lemma same_skel_calls [simp]: "same_skel s (s\<lparr>recalc_calls := xs\<rparr>)"
  by (simp add: same_skel_def)

lemma same_skel_heap:
  assumes "same_skel s s'"
  shows "heap s x = None \<longleftrightarrow> heap s' x = None"
    and "heap s x = Some n \<Longrightarrow> \<exists>n'. heap s' x = Some n' \<and> skel n' = skel n"
proof -
  from assms have e: "map_option skel (heap s' x) = map_option skel (heap s x)"
    by (simp add: same_skel_def)
  then show "heap s x = None \<longleftrightarrow> heap s' x = None"
    by (cases "heap s' x"; cases "heap s x") simp_all
  from e show "heap s x = Some n \<Longrightarrow> \<exists>n'. heap s' x = Some n' \<and> skel n' = skel n"
    by (cases "heap s' x"; cases "heap s x") simp_all
qed

lemma same_skel_map:
  assumes "same_skel s s'" and "\<And>n n'. skel n' = skel n \<Longrightarrow> f n' = f n"
  shows "map_option f (heap s' x) = map_option f (heap s x)"
proof (cases "heap s x")
  case None
  with same_skel_heap(1)[OF assms(1), of x] show ?thesis by simp
next
  case (Some n)
  from same_skel_heap(2)[OF assms(1) Some] obtain n' where n': "heap s' x = Some n'"
    "skel n' = skel n" by blast
  from assms(2)[OF n'(2)] n'(1) Some show ?thesis by simp
qed

lemma same_skel_field:
  assumes "same_skel s s'" and "\<And>n n'. skel n' = skel n \<Longrightarrow> f n' = f n"
  shows "field f d s' x = field f d s x"
proof -
  have "map_option f (heap s' x) = map_option f (heap s x)"
    by (rule same_skel_map[OF assms])
  then show ?thesis
    by (cases "heap s' x"; cases "heap s x") (simp_all add: field_def)
qed

lemma same_skel_children:
  assumes "same_skel s s'"
  shows "children s' a = children s a"
  by (rule children_agree; rule same_skel_map[OF assms]; erule skel_eqD)

lemma same_skel_items:
  assumes "same_skel s s'"
  shows "items s' a = items s a"
proof -
  have d: "map_option m_dotEntry (heap s' a) = map_option m_dotEntry (heap s a)"
    and i: "map_option isDirInfo (heap s' a) = map_option isDirInfo (heap s a)"
    by (rule same_skel_map[OF assms]; erule skel_eqD)+
  have it: "FileInfoIterator s' a = FileInfoIterator s a"
    using d by (cases "heap s' a"; cases "heap s a")
      (auto simp: FileInfoIterator_def same_skel_children[OF assms] split: option.splits)
  from i it show ?thesis
    by (cases "heap s' a"; cases "heap s a") (auto simp: items_def)
qed

lemma same_skel_is_tree: "same_skel s s' \<Longrightarrow> is_tree s' t = is_tree s t"
  by (induction t) (simp add: same_skel_items)

lemma same_skel_fields:
  assumes "same_skel s s'"
  shows "field m_size 0 s' = field m_size 0 s" "field m_blocks 0 s' = field m_blocks 0 s"
    "field m_mtime 0 s' = field m_mtime 0 s" "field isDir False s' = field isDir False s"
    "field isFile False s' = field isFile False s"
  by (rule ext, rule same_skel_field[OF assms], erule skel_eqD)+

lemma same_skel_specs:
  assumes "same_skel s s'"
  shows "subtree_size s' t = subtree_size s t" "subtree_blocks s' t = subtree_blocks s t"
    "subtree_subdirs s' t = subtree_subdirs s t" "subtree_files s' t = subtree_files s t"
    "subtree_mtime s' t = subtree_mtime s t"
  by (simp_all add: subtree_size_def subtree_blocks_def subtree_subdirs_def subtree_files_def
        subtree_mtime_def same_skel_fields[OF assms])

lemma same_skel_absorb_tree:
  assumes "same_skel s s'"
  shows "absorb_tree s' t = absorb_tree s t"
  by (simp add: absorb_tree_def fun_eq_iff same_skel_specs[OF assms] same_skel_fields[OF assms])

subsection \<open>Frames\<close>

lemma root_in_nodes [simp]: "root t \<in> set (nodes t)"
  by (cases t) simp

lemma nodes_root: "nodes t = root t # descendants t"
  by (cases t) (simp add: descendants_def)

lemma summary_ok_frame:
  "same_skel s s' \<Longrightarrow> heap s' (root t) = heap s (root t) \<Longrightarrow> summary_ok s' t = summary_ok s t"
  by (simp add: summary_ok_def same_skel_specs split: option.splits)

lemma all_ok_frame:
  "same_skel s s' \<Longrightarrow> (\<And>x. x \<in> set (nodes t) \<Longrightarrow> heap s' x = heap s x) \<Longrightarrow>
   all_ok s' t = all_ok s t"
proof (induction t)
  case (Node a ts)
  have "all_ok s' u = all_ok s u" if u: "u \<in> set ts" for u
  proof (rule Node.IH[OF u Node.prems(1)])
    fix x assume "x \<in> set (nodes u)"
    with u have "x \<in> set (nodes (Node a ts))" by auto
    then show "heap s' x = heap s x" by (rule Node.prems(2))
  qed
  moreover have "summary_ok s' (Node a ts) = summary_ok s (Node a ts)"
    by (rule summary_ok_frame[OF Node.prems(1)]) (simp add: Node.prems(2))
  ultimately show ?case by simp
qed

lemma visits_frame:
  "(\<And>x. x \<in> set (nodes t) \<Longrightarrow> heap s' x = heap s x) \<Longrightarrow> visits s' t = visits s t"
proof (induction t)
  case (Node a ts)
  have "visits s' u = visits s u" if u: "u \<in> set ts" for u
  proof (rule Node.IH[OF u])
    fix x assume "x \<in> set (nodes u)"
    with u have "x \<in> set (nodes (Node a ts))" by auto
    then show "heap s' x = heap s x" by (rule Node.prems)
  qed
  then have m: "map (visits s') ts = map (visits s) ts" by simp
  have d: "is_dirty s' a = is_dirty s a"
    using Node.prems[of a] by (simp add: is_dirty_def)
  show ?case by (simp only: visits.simps m d)
qed

subsection \<open>The sums over a subtree, node by node\<close>

lemma descendants_Node [simp]: "descendants (Node a ts) = concat (map nodes ts)"
  by (simp add: descendants_def)

lemma length_nodes: "length (nodes t) = Suc (length (descendants t))"
  by (cases t) simp

lemma filter_nodes:
  "length (filter P (nodes t)) = (if P (root t) then 1 else 0) + length (filter P (descendants t))"
  by (cases t) simp

lemma sum_list_nodes:
  "(\<Sum>x\<leftarrow>concat (map nodes ts). (g x :: int)) = (\<Sum>t\<leftarrow>ts. \<Sum>x\<leftarrow>nodes t. g x)"
  by (induction ts) simp_all

lemma subtree_size_Node:
  "subtree_size s (Node a ts) = field m_size 0 s a + (\<Sum>t\<leftarrow>ts. subtree_size s t)"
  by (simp add: subtree_size_def sum_list_nodes)

lemma subtree_blocks_Node:
  "subtree_blocks s (Node a ts) = field m_blocks 0 s a + (\<Sum>t\<leftarrow>ts. subtree_blocks s t)"
  by (simp add: subtree_blocks_def sum_list_nodes)

lemma subtree_items_Node: "subtree_items (Node a ts) = (\<Sum>t\<leftarrow>ts. subtree_items t + 1)"
  by (induction ts) (simp_all add: subtree_items_def length_nodes)

lemma filter_descendants_Node:
  "int (length (filter P (descendants (Node a ts)))) =
     (\<Sum>t\<leftarrow>ts. int (length (filter P (descendants t))) + (if P (root t) then 1 else 0))"
  by (induction ts) (simp_all add: filter_nodes)

lemma subtree_subdirs_Node:
  "subtree_subdirs s (Node a ts) =
     (\<Sum>t\<leftarrow>ts. subtree_subdirs s t + (if field isDir False s (root t) then 1 else 0))"
  unfolding subtree_subdirs_def by (rule filter_descendants_Node)

lemma subtree_files_Node:
  "subtree_files s (Node a ts) =
     (\<Sum>t\<leftarrow>ts. subtree_files s t + (if field isFile False s (root t) then 1 else 0))"
  unfolding subtree_files_def by (rule filter_descendants_Node)

lemma Max_concat_nodes:
  "finite A \<Longrightarrow> A \<noteq> {} \<Longrightarrow>
   Max (A \<union> set (map g (concat (map nodes ts)))) =
     fold (\<lambda>t m. max m (Max (set (map g (nodes t))))) ts (Max A)"
proof (induction ts arbitrary: A)
  case Nil
  then show ?case by simp
next
  case (Cons t ts)
  let ?B = "set (map g (nodes t))"
  have B: "finite ?B" "?B \<noteq> {}" by (cases t; simp)+
  have "A \<union> set (map g (concat (map nodes (t # ts))))
        = (A \<union> ?B) \<union> set (map g (concat (map nodes ts)))"
    by auto
  moreover have "Max (A \<union> ?B) = max (Max A) (Max ?B)"
    using Cons.prems B by (rule Max_Un)
  ultimately show ?case
    using Cons.IH[of "A \<union> ?B"] Cons.prems B by simp
qed

lemma subtree_mtime_Node:
  "subtree_mtime s (Node a ts) =
     fold (\<lambda>t m. max m (subtree_mtime s t)) ts (field m_mtime 0 s a)"
  using Max_concat_nodes[of "{field m_mtime 0 s a}" "field m_mtime 0 s" ts]
  by (simp add: subtree_mtime_def)

lemma fold_absorb_tree:
  "m_totalSize (fold (absorb_tree s) ts n) = m_totalSize n + (\<Sum>t\<leftarrow>ts. subtree_size s t)"
  "m_totalBlocks (fold (absorb_tree s) ts n) = m_totalBlocks n + (\<Sum>t\<leftarrow>ts. subtree_blocks s t)"
  "m_totalItems (fold (absorb_tree s) ts n) = m_totalItems n + (\<Sum>t\<leftarrow>ts. subtree_items t + 1)"
  "m_totalSubDirs (fold (absorb_tree s) ts n) =
     m_totalSubDirs n
     + (\<Sum>t\<leftarrow>ts. subtree_subdirs s t + (if field isDir False s (root t) then 1 else 0))"
  "m_totalFiles (fold (absorb_tree s) ts n) =
     m_totalFiles n
     + (\<Sum>t\<leftarrow>ts. subtree_files s t + (if field isFile False s (root t) then 1 else 0))"
  "m_latestMtime (fold (absorb_tree s) ts n) =
     fold (\<lambda>t m. max m (subtree_mtime s t)) ts (m_latestMtime n)"
  "skel (fold (absorb_tree s) ts n) = skel n"
  "m_summaryDirty (fold (absorb_tree s) ts n) = m_summaryDirty n"
  "isDirInfo (fold (absorb_tree s) ts n) = isDirInfo n"
  by (induction ts arbitrary: n; simp add: absorb_tree_def skel_def)+

text \<open>After \<^verbatim>\<open>recalc()\<close> has reset the summary and absorbed every child, the summary is the sum
  over the subtree.\<close>

lemma fold_absorb_tree_ok:
  assumes "heap s a = Some n"
  shows "m_totalSize (fold (absorb_tree s) ts (reset_summary n)) = subtree_size s (Node a ts)"
    "m_totalBlocks (fold (absorb_tree s) ts (reset_summary n)) = subtree_blocks s (Node a ts)"
    "m_totalItems (fold (absorb_tree s) ts (reset_summary n)) = subtree_items (Node a ts)"
    "m_totalSubDirs (fold (absorb_tree s) ts (reset_summary n)) = subtree_subdirs s (Node a ts)"
    "m_totalFiles (fold (absorb_tree s) ts (reset_summary n)) = subtree_files s (Node a ts)"
    "m_latestMtime (fold (absorb_tree s) ts (reset_summary n)) = subtree_mtime s (Node a ts)"
  using assms
  by (simp_all add: fold_absorb_tree subtree_size_Node subtree_blocks_Node subtree_items_Node
      subtree_subdirs_Node subtree_files_Node subtree_mtime_Node reset_summary_def field_def)

text \<open>A child that needs no \<^verbatim>\<open>recalc()\<close> and whose summary is right contributes the sums over
  its subtree.\<close>

lemma absorb_settled:
  assumes tree: "is_tree s t" and ok: "summary_ok s t" and c: "heap s (root t) = Some cn"
    and st: "isDirInfo cn \<longrightarrow> \<not> m_summaryDirty cn"
  shows "absorb cn = absorb_tree s t"
proof (cases "isDirInfo cn")
  case True
  with ok c st show ?thesis
    by (simp add: summary_ok_def absorb_def absorb_tree_def summary_val_def fun_eq_iff field_def)
next
  case False
  obtain a ts where t: "t = Node a ts" by (cases t)
  with tree c False have "ts = []" by (simp add: items_def)
  with t c False show ?thesis
    by (simp add: absorb_def absorb_tree_def summary_val_def fun_eq_iff field_def
        subtree_size_def subtree_blocks_def subtree_items_def subtree_subdirs_def
        subtree_files_def subtree_mtime_def descendants_def)
qed

subsection \<open>The loop and the accessors\<close>

lemma skel_absorb [simp]: "skel (absorb c n) = skel n"
  by (simp add: absorb_def skel_def)

lemma skel_reset [simp]: "skel (reset_summary n) = skel n"
  by (simp add: reset_summary_def skel_def)

lemma skel_clear [simp]: "skel (n\<lparr>m_summaryDirty := False\<rparr>) = skel n"
  by (simp add: skel_def)

lemma recalc_loop:
  assumes IH: "\<And>t s f. t \<in> set ts \<Longrightarrow> is_tree s t \<Longrightarrow> distinct (nodes t) \<Longrightarrow> all_ok s t \<Longrightarrow>
      \<exists>s' n'. exec (Accessor f (root t)) s = Some (summary_val f n', s') \<and>
              heap s' (root t) = Some n' \<and> recalc_post s s' t"
  shows "set rest \<subseteq> set ts \<Longrightarrow> heap s a = Some an \<Longrightarrow>
    (\<forall>t\<in>set rest. is_tree s t \<and> all_ok s t) \<Longrightarrow>
    distinct (a # concat (map nodes rest)) \<Longrightarrow>
    \<exists>s'. exec (RecalcLoop a (map root rest)) s = Some (0, s') \<and>
         heap s' a = Some ((fold (absorb_tree s) rest an)\<lparr>m_summaryDirty := False\<rparr>) \<and>
         same_skel s s' \<and>
         (\<forall>x. x \<notin> set (a # concat (map nodes rest)) \<longrightarrow> heap s' x = heap s x) \<and>
         (\<forall>t\<in>set rest. all_ok s' t) \<and>
         errors s' = errors s \<and> finalizeLocal_sent s' = finalizeLocal_sent s \<and>
         recalc_calls s' = recalc_calls s @ concat (map (visits s) rest)"
proof (induction rest arbitrary: s an)
  case Nil
  then show ?case
    by (simp add: exec_RecalcLoop_Nil same_skel_upd)
next
  case (Cons t rest)
  from Cons.prems have t: "t \<in> set ts" "is_tree s t" "all_ok s t" by auto
  from Cons.prems(4) have dt: "distinct (nodes t)" and anot: "a \<notin> set (nodes t)"
    and disj: "set (nodes t) \<inter> set (concat (map nodes rest)) = {}"
    and drest: "distinct (a # concat (map nodes rest))"
    by auto
  from IH[OF t(1,2) dt t(3), of TotalSize] obtain s1 cn where
    acc: "exec (Accessor TotalSize (root t)) s = Some (summary_val TotalSize cn, s1)"
    and cn: "heap s1 (root t) = Some cn" and post: "recalc_post s s1 t"
    by blast
  from post have sk1: "same_skel s s1"
    and fr1: "\<And>x. x \<notin> set (nodes t) \<Longrightarrow> heap s1 x = heap s x"
    and ok1: "all_ok s1 t" and st1: "settled s1 (root t)"
    and o1: "errors s1 = errors s" "finalizeLocal_sent s1 = finalizeLocal_sent s"
      "recalc_calls s1 = recalc_calls s @ visits s t"
    by (simp_all add: recalc_post_def)
  from st1 cn have st: "isDirInfo cn \<longrightarrow> \<not> m_summaryDirty cn" by (simp add: settled_def)
  from anot have ar: "a \<noteq> root t" by auto
  from fr1[OF anot] Cons.prems(2) have a1: "heap s1 a = Some an" by simp
  let ?s1 = "upd a (absorb cn) s1"
  have step: "exec (RecalcLoop a (map root (t # rest))) s = exec (RecalcLoop a (map root rest)) ?s1"
    using exec_RecalcLoop_step[OF acc cn st refl a1 ar] by simp
  have tree1: "is_tree s1 t" using t(2) sk1 by (simp add: same_skel_is_tree)
  from ok1 have "summary_ok s1 t" by (cases t) simp
  from absorb_settled[OF tree1 this cn st] have ab: "absorb cn = absorb_tree s t"
    by (simp add: same_skel_absorb_tree[OF sk1])
  have sk1': "same_skel s ?s1"
    by (rule same_skel_trans[OF sk1]) (rule same_skel_upd, simp)
  have fr1': "heap ?s1 x = heap s x" if "x \<in> set (concat (map nodes rest))" for x
  proof -
    from that disj drest have "x \<notin> set (nodes t)" "x \<noteq> a" by auto
    with fr1 show ?thesis by simp
  qed
  have pre: "\<forall>u\<in>set rest. is_tree ?s1 u \<and> all_ok ?s1 u"
  proof
    fix u assume u: "u \<in> set rest"
    with Cons.prems(3) have "is_tree s u" "all_ok s u" by auto
    moreover have "all_ok ?s1 u = all_ok s u"
      by (rule all_ok_frame[OF sk1']) (rule fr1', use u in auto)
    ultimately show "is_tree ?s1 u \<and> all_ok ?s1 u"
      by (simp add: same_skel_is_tree[OF sk1'])
  qed
  have a1': "heap ?s1 a = Some (absorb_tree s t an)" using a1 ab by simp
  from Cons.prems(1) have sub: "set rest \<subseteq> set ts" by simp
  from Cons.IH[OF sub a1' pre drest] obtain s' where
    run: "exec (RecalcLoop a (map root rest)) ?s1 = Some (0, s')"
    and a': "heap s' a = Some ((fold (absorb_tree ?s1) rest (absorb_tree s t an))\<lparr>m_summaryDirty := False\<rparr>)"
    and sk': "same_skel ?s1 s'"
    and fr': "\<And>x. x \<notin> set (a # concat (map nodes rest)) \<Longrightarrow> heap s' x = heap ?s1 x"
    and ok': "\<forall>u\<in>set rest. all_ok s' u"
    and o': "errors s' = errors ?s1" "finalizeLocal_sent s' = finalizeLocal_sent ?s1"
      "recalc_calls s' = recalc_calls ?s1 @ concat (map (visits ?s1) rest)"
    by blast
  have sk: "same_skel s s'" by (rule same_skel_trans[OF sk1' sk'])
  have "absorb_tree ?s1 = absorb_tree s"
    by (rule ext) (rule same_skel_absorb_tree[OF sk1'])
  then have fold_eq: "fold (absorb_tree ?s1) rest = fold (absorb_tree s) rest"
    by simp
  have A: "heap s' a = Some ((fold (absorb_tree s) (t # rest) an)\<lparr>m_summaryDirty := False\<rparr>)"
    using a' by (simp add: fold_eq)
  have F: "heap s' x = heap s x" if "x \<notin> set (a # concat (map nodes (t # rest)))" for x
  proof -
    from that have "x \<notin> set (a # concat (map nodes rest))" "x \<notin> set (nodes t)" "x \<noteq> a" by auto
    with fr' fr1 show ?thesis by simp
  qed
  have okt: "all_ok s' t"
  proof -
    have "all_ok s' t = all_ok s1 t"
    proof (rule all_ok_frame)
      show "same_skel s1 s'"
        by (rule same_skel_trans[OF _ sk']) (rule same_skel_upd, simp)
      fix x assume x: "x \<in> set (nodes t)"
      with disj anot have "x \<notin> set (a # concat (map nodes rest))" "x \<noteq> a" by auto
      with fr' show "heap s' x = heap s1 x" by simp
    qed
    with ok1 show ?thesis by simp
  qed
  have vis: "map (visits ?s1) rest = map (visits s) rest"
  proof (rule map_cong[OF refl])
    fix u assume u: "u \<in> set rest"
    show "visits ?s1 u = visits s u"
      by (rule visits_frame) (rule fr1', use u in auto)
  qed
  have T: "recalc_calls s' = recalc_calls s @ concat (map (visits s) (t # rest))"
    using o'(3) o1(3) by (simp add: vis)
  from step run A sk F okt ok' o' o1 T show ?case
    by auto
qed

lemma exec_Recalc:
  "exec (Recalc a) s =
     FileInfoIterator (upd a reset_summary (s\<lparr>recalc_calls := recalc_calls s @ [a]\<rparr>)) a \<bind>
       (\<lambda>its. exec (RecalcLoop a its) (upd a reset_summary (s\<lparr>recalc_calls := recalc_calls s @ [a]\<rparr>)))"
  by (subst exec.simps) (simp add: Let_def)

lemma exec_Accessor_dirty:
  "heap s a = Some n \<Longrightarrow> isDirInfo n \<Longrightarrow> m_summaryDirty n \<Longrightarrow>
   exec (Accessor f a) s =
     exec (Recalc a) s \<bind> (\<lambda>r. heap (snd r) a \<bind> (\<lambda>n1. Some (cached f n1, snd r)))"
  by (subst exec.simps) (simp add: split_def)

text \<open>\<^verbatim>\<open>recalc()\<close> on the root of a tree whose children answer their accessors as stated.\<close>

lemma recalc_root:
  assumes IH: "\<And>t s f. t \<in> set ts \<Longrightarrow> is_tree s t \<Longrightarrow> distinct (nodes t) \<Longrightarrow> all_ok s t \<Longrightarrow>
      \<exists>s' n'. exec (Accessor f (root t)) s = Some (summary_val f n', s') \<and>
              heap s' (root t) = Some n' \<and> recalc_post s s' t"
    and tree: "is_tree s (Node a ts)" and dist: "distinct (nodes (Node a ts))"
    and ok: "\<forall>t\<in>set ts. all_ok s t" and a: "heap s a = Some n" "isDirInfo n"
  shows "\<exists>s' n'. exec (Recalc a) s = Some (0, s') \<and> heap s' a = Some n' \<and>
           isDirInfo n' \<and> \<not> m_summaryDirty n' \<and>
           same_skel s s' \<and> (\<forall>x. x \<notin> set (nodes (Node a ts)) \<longrightarrow> heap s' x = heap s x) \<and>
           all_ok s' (Node a ts) \<and>
           errors s' = errors s \<and> finalizeLocal_sent s' = finalizeLocal_sent s \<and>
           recalc_calls s' = recalc_calls s @ a # concat (map (visits s) ts)"
proof -
  let ?s0 = "upd a reset_summary (s\<lparr>recalc_calls := recalc_calls s @ [a]\<rparr>)"
  have sk0: "same_skel s ?s0"
    by (rule same_skel_trans[OF same_skel_calls]) (rule same_skel_upd, simp)
  have fr0: "heap ?s0 x = heap s x" if "x \<noteq> a" for x using that by simp
  from tree a have "items s a = Some (map root ts)" by simp
  then have "items ?s0 a = Some (map root ts)" by (simp add: same_skel_items[OF sk0])
  with a have it: "FileInfoIterator ?s0 a = Some (map root ts)"
    by (simp add: items_def reset_summary_def)
  from dist have d0: "distinct (a # concat (map nodes ts))" by simp
  have a0: "heap ?s0 a = Some (reset_summary n)" using a by simp
  have pre: "\<forall>t\<in>set ts. is_tree ?s0 t \<and> all_ok ?s0 t"
  proof
    fix t assume t: "t \<in> set ts"
    with tree ok have "is_tree s t" "all_ok s t" by auto
    moreover have "all_ok ?s0 t = all_ok s t"
    proof (rule all_ok_frame[OF sk0])
      fix x assume "x \<in> set (nodes t)"
      with t d0 have "x \<noteq> a" by auto
      then show "heap ?s0 x = heap s x" by (rule fr0)
    qed
    ultimately show "is_tree ?s0 t \<and> all_ok ?s0 t"
      by (simp add: same_skel_is_tree[OF sk0])
  qed
  from recalc_loop[OF IH subset_refl a0 pre d0] obtain s' where
    run: "exec (RecalcLoop a (map root ts)) ?s0 = Some (0, s')"
    and a': "heap s' a = Some ((fold (absorb_tree ?s0) ts (reset_summary n))\<lparr>m_summaryDirty := False\<rparr>)"
    and sk': "same_skel ?s0 s'"
    and fr': "\<And>x. x \<notin> set (a # concat (map nodes ts)) \<Longrightarrow> heap s' x = heap ?s0 x"
    and ok': "\<forall>u\<in>set ts. all_ok s' u"
    and o': "errors s' = errors ?s0" "finalizeLocal_sent s' = finalizeLocal_sent ?s0"
      "recalc_calls s' = recalc_calls ?s0 @ concat (map (visits ?s0) ts)"
    by blast
  let ?n' = "(fold (absorb_tree s) ts (reset_summary n))\<lparr>m_summaryDirty := False\<rparr>"
  have "absorb_tree ?s0 = absorb_tree s"
    by (rule ext) (rule same_skel_absorb_tree[OF sk0])
  with a' have A: "heap s' a = Some ?n'" by simp
  have sk: "same_skel s s'" by (rule same_skel_trans[OF sk0 sk'])
  have R: "exec (Recalc a) s = Some (0, s')"
    by (simp add: exec_Recalc it run)
  have F: "heap s' x = heap s x" if "x \<notin> set (nodes (Node a ts))" for x
    using that fr'[of x] fr0[of x] by simp
  have "summary_ok s' (Node a ts)"
    using A fold_absorb_tree_ok[OF a(1), of ts]
    by (simp add: summary_ok_def same_skel_specs[OF sk] fold_absorb_tree)
  with ok' have O: "all_ok s' (Node a ts)" by simp
  have vis: "map (visits ?s0) ts = map (visits s) ts"
  proof (rule map_cong[OF refl])
    fix u assume u: "u \<in> set ts"
    show "visits ?s0 u = visits s u"
    proof (rule visits_frame)
      fix x assume "x \<in> set (nodes u)"
      with u d0 have "x \<noteq> a" by auto
      then show "heap ?s0 x = heap s x" by (rule fr0)
    qed
  qed
  have T: "recalc_calls s' = recalc_calls s @ a # concat (map (visits s) ts)"
    using o'(3) by (simp add: vis)
  have D: "isDirInfo ?n'" "\<not> m_summaryDirty ?n'"
    using a(2) by (simp_all add: fold_absorb_tree reset_summary_def)
  from R A D sk F O o'(1,2) T show ?thesis by auto
qed

text \<open>Every summary accessor, on the root of any tree in which the summaries that are not
  dirty are right.\<close>

lemma accessor_correct:
  "is_tree s t \<Longrightarrow> distinct (nodes t) \<Longrightarrow> all_ok s t \<Longrightarrow>
   \<exists>s' n'. exec (Accessor f (root t)) s = Some (summary_val f n', s') \<and>
           heap s' (root t) = Some n' \<and> recalc_post s s' t"
proof (induction t arbitrary: s f)
  case (Node a ts)
  from Node.prems(1) obtain n where n: "heap s a = Some n"
    by (cases "heap s a") (simp_all add: items_def)
  show ?case
  proof (cases "isDirInfo n \<and> m_summaryDirty n")
    case False
    then have st: "isDirInfo n \<longrightarrow> \<not> m_summaryDirty n" by simp
    with n have "visits s (Node a ts) = []" by (auto simp: is_dirty_def)
    with n st Node.prems(3) have "recalc_post s s (Node a ts)"
      by (simp add: recalc_post_def settled_def)
    with exec_Accessor_settled[OF n st, of f] n show ?thesis by auto
  next
    case True
    from Node.prems(3) have ok: "\<forall>t\<in>set ts. all_ok s t" by simp
    from recalc_root[OF Node.IH Node.prems(1,2) ok n] True
    obtain s' n' where r: "exec (Recalc a) s = Some (0, s')" "heap s' a = Some n'"
      "isDirInfo n'" "\<not> m_summaryDirty n'" "same_skel s s'"
      "\<forall>x. x \<notin> set (nodes (Node a ts)) \<longrightarrow> heap s' x = heap s x"
      "all_ok s' (Node a ts)" "errors s' = errors s"
      "finalizeLocal_sent s' = finalizeLocal_sent s"
      "recalc_calls s' = recalc_calls s @ a # concat (map (visits s) ts)"
      by blast
    from True n have "visits s (Node a ts) = a # concat (map (visits s) ts)"
      by (simp add: is_dirty_def)
    with r have "recalc_post s s' (Node a ts)"
      by (simp add: recalc_post_def settled_def)
    moreover from True n r(1-3)
    have "exec (Accessor f a) s = Some (summary_val f n', s')"
      by (simp add: exec_Accessor_dirty summary_val_def)
    ultimately show ?thesis using r(2) by auto
  qed
qed

lemma after_delete_facts:
  "\<exists>s n. after_delete = Some s \<and> heap s 2 = Some n \<and> isDirInfo n \<and> m_summaryDirty n \<and>
     is_tree s (Node 2 [Node 5 [Node 7 []]]) \<and> all_ok s (Node 2 [Node 5 [Node 7 []]]) \<and>
     subtree_size s (Node 2 [Node 5 [Node 7 []]]) = 50 \<and>
     subtree_items (Node 2 [Node 5 [Node 7 []]]) = 2 \<and>
     visits s (Node 2 [Node 5 [Node 7 []]]) = [2] \<and> recalc_calls s = []"
  by (simp add: after_delete_def scenario_def eval_defs insertChild.simps childAdded.simps
      deletingChild.simps unlinkChild_def items_def FileInfoIterator_def children_def follow_Some
      summary_ok_def subtree_size_def subtree_blocks_def subtree_items_def subtree_subdirs_def
      subtree_files_def subtree_mtime_def field_def descendants_def is_dirty_def)

section \<open>Deletion: properties\<close>









subsection \<open>The objects an accessor recalculates\<close>


lemma distinct_concat_part:
  "distinct (concat (map g xs)) \<Longrightarrow> x \<in> set xs \<Longrightarrow> distinct (g x)"
  by (induction xs) auto

lemma distinct_concat_sub:
  "distinct (concat (map g xs)) \<Longrightarrow> (\<And>x. x \<in> set xs \<Longrightarrow> distinct (f x) \<and> set (f x) \<subseteq> set (g x)) \<Longrightarrow>
   distinct (concat (map f xs))"
proof (induction xs)
  case Nil
  then show ?case by simp
next
  case (Cons y ys)
  from Cons.prems(1) have d: "distinct (g y)" "distinct (concat (map g ys))"
    "set (g y) \<inter> set (concat (map g ys)) = {}" by simp_all
  have ys: "distinct (concat (map f ys))"
    by (rule Cons.IH[OF d(2)]) (simp add: Cons.prems(2))
  have "set (concat (map f ys)) \<subseteq> set (concat (map g ys))"
    using Cons.prems(2) by fastforce
  moreover have "set (f y) \<subseteq> set (g y)" "distinct (f y)" using Cons.prems(2)[of y] by simp_all
  ultimately show ?case using ys d(3) by auto
qed


subsection \<open>What the accessors return\<close>

text \<open>All accessors leave the same state behind.\<close>

lemma accessor_correct_all:
  assumes "is_tree s t" and "distinct (nodes t)" and "all_ok s t"
  shows "\<exists>s' n'. (\<forall>f. exec (Accessor f (root t)) s = Some (summary_val f n', s')) \<and>
           heap s' (root t) = Some n' \<and> recalc_post s s' t"
proof -
  from accessor_correct[OF assms, of TotalSize] obtain s' n' where
    r: "exec (Accessor TotalSize (root t)) s = Some (summary_val TotalSize n', s')"
    "heap s' (root t) = Some n'" "recalc_post s s' t" by blast
  from r(3) have sk: "same_skel s s'" by (simp add: recalc_post_def)
  from same_skel_heap(1)[OF sk, of "root t"] r(2) obtain n where n: "heap s (root t) = Some n"
    by (cases "heap s (root t)") auto
  from same_skel_heap(2)[OF sk n] r(2) have "skel n' = skel n" by auto
  then have dn: "isDirInfo n' = isDirInfo n" by (rule skel_eqD)
  have "exec (Accessor f (root t)) s = Some (summary_val f n', s')" for f
  proof (cases "isDirInfo n \<and> m_summaryDirty n")
    case False
    then have st: "isDirInfo n \<longrightarrow> \<not> m_summaryDirty n" by simp
    from exec_Accessor_settled[OF n st, of TotalSize] r(1) have "s' = s" by simp
    with r(2) n have "n' = n" by simp
    with exec_Accessor_settled[OF n st, of f] \<open>s' = s\<close> show ?thesis by simp
  next
    case True
    then have t: "isDirInfo n" "m_summaryDirty n" by simp_all
    from r(1) obtain q where q: "exec (Recalc (root t)) s = Some q" "snd q = s'"
      unfolding exec_Accessor_dirty[OF n t] by (auto split: bind_splits)
    with r(2) dn t show ?thesis
      unfolding exec_Accessor_dirty[OF n t] by (simp add: summary_val_def)
  qed
  with r(2,3) show ?thesis by blast
qed

text \<open>What an accessor returns for an object that needs no \<^verbatim>\<open>recalc()\<close> is the sum over its
  subtree; for an object that is no \<^verbatim>\<open>DirInfo\<close> the subtree is the object alone.\<close>

lemma summary_val_sums:
  assumes "is_tree s t" and "all_ok s t" and "heap s (root t) = Some n" and "settled s (root t)"
  shows "summary_val TotalSize n = subtree_size s t" "summary_val TotalBlocks n = subtree_blocks s t"
    "summary_val TotalItems n = subtree_items t" "summary_val TotalSubDirs n = subtree_subdirs s t"
    "summary_val TotalFiles n = subtree_files s t" "summary_val LatestMtime n = subtree_mtime s t"
proof -
  obtain a ts where t: "t = Node a ts" by (cases t)
  have "summary_val TotalSize n = subtree_size s t \<and> summary_val TotalBlocks n = subtree_blocks s t \<and>
    summary_val TotalItems n = subtree_items t \<and> summary_val TotalSubDirs n = subtree_subdirs s t \<and>
    summary_val TotalFiles n = subtree_files s t \<and> summary_val LatestMtime n = subtree_mtime s t"
  proof (cases "isDirInfo n")
    case True
    with assms(3,4) t have "\<not> m_summaryDirty n" by (simp add: settled_def)
    moreover from assms(2) t have "summary_ok s t" by simp
    ultimately show ?thesis using True assms(3)
      by (simp add: summary_ok_def summary_val_def)
  next
    case False
    with assms(1,3) t have "ts = []" by (simp add: items_def)
    with False assms(3) t show ?thesis
      by (simp add: summary_val_def subtree_size_def subtree_blocks_def subtree_items_def
          subtree_subdirs_def subtree_files_def subtree_mtime_def descendants_def field_def)
  qed
  then show "summary_val TotalSize n = subtree_size s t" "summary_val TotalBlocks n = subtree_blocks s t"
    "summary_val TotalItems n = subtree_items t" "summary_val TotalSubDirs n = subtree_subdirs s t"
    "summary_val TotalFiles n = subtree_files s t" "summary_val LatestMtime n = subtree_mtime s t"
    by simp_all
qed

section \<open>Summaries: the claims\<close>


text \<open>
  C1, amended: let \<open>Node a ts\<close> be the subtree of the object \<open>a\<close> (the children of a tree node are the
  direct children of the object and the children of its dot entry; no dot entry is a node),
  with no object twice in it. If \<open>a\<close> is a \<^verbatim>\<open>DirInfo\<close> and, in the subtrees of the children,
  every \<^verbatim>\<open>DirInfo\<close> that is not dirty holds the sums over its subtree, then \<^verbatim>\<open>recalc()\<close> on
  \<open>a\<close> returns, \<open>a\<close> is not dirty afterwards, and \<^verbatim>\<open>_totalSize\<close>, \<^verbatim>\<open>_totalBlocks\<close>,
  \<^verbatim>\<open>_totalItems\<close>, \<^verbatim>\<open>_totalSubDirs\<close>, \<^verbatim>\<open>_totalFiles\<close> and \<^verbatim>\<open>_latestMtime\<close> of \<open>a\<close> are the sums
  of size and blocks over \<open>a\<close> and its descendants, the numbers of descendants, of descendant
  directories and of descendant files, and the maximum mtime over \<open>a\<close> and its descendants;
  the same then holds for every \<^verbatim>\<open>DirInfo\<close> of the subtree that is not dirty. If it holds
  in the whole subtree before, the six accessors return these sums, all leave the same state
  behind, and it holds in that state again. Only summaries and dirty flags change.
\<close>

theorem recalc_subtree_sums:
  assumes "is_tree s (Node a ts)" and "distinct (nodes (Node a ts))"
  shows "(field isDirInfo False s a \<and> (\<forall>t\<in>set ts. all_ok s t) \<longrightarrow>
            (\<exists>s' n'. recalc s a = Some s' \<and> heap s' a = Some n' \<and> \<not> m_summaryDirty n' \<and>
               m_totalSize n' = subtree_size s' (Node a ts) \<and>
               m_totalBlocks n' = subtree_blocks s' (Node a ts) \<and>
               m_totalItems n' = subtree_items (Node a ts) \<and>
               m_totalSubDirs n' = subtree_subdirs s' (Node a ts) \<and>
               m_totalFiles n' = subtree_files s' (Node a ts) \<and>
               m_latestMtime n' = subtree_mtime s' (Node a ts) \<and>
               is_tree s' (Node a ts) \<and> all_ok s' (Node a ts) \<and> same_skel s s')) \<and>
         (all_ok s (Node a ts) \<longrightarrow>
            (\<exists>s'. totalSize s a = Some (subtree_size s' (Node a ts), s') \<and>
               totalBlocks s a = Some (subtree_blocks s' (Node a ts), s') \<and>
               totalItems s a = Some (subtree_items (Node a ts), s') \<and>
               totalSubDirs s a = Some (subtree_subdirs s' (Node a ts), s') \<and>
               totalFiles s a = Some (subtree_files s' (Node a ts), s') \<and>
               latestMtime s a = Some (subtree_mtime s' (Node a ts), s') \<and>
               is_tree s' (Node a ts) \<and> all_ok s' (Node a ts) \<and> same_skel s s'))"
proof (rule conjI; rule impI)
  assume h: "field isDirInfo False s a \<and> (\<forall>t\<in>set ts. all_ok s t)"
  then obtain n where n: "heap s a = Some n" "isDirInfo n"
    by (cases "heap s a") (auto simp: field_def)
  from h have ok: "\<forall>t\<in>set ts. all_ok s t" by simp
  from recalc_root[OF accessor_correct assms ok n]
  obtain s' n' where r: "exec (Recalc a) s = Some (0, s')" "heap s' a = Some n'"
    "isDirInfo n'" "\<not> m_summaryDirty n'" "same_skel s s'" "all_ok s' (Node a ts)"
    by blast
  from r(6) have "summary_ok s' (Node a ts)" by simp
  with r(2,3,4) have sums: "m_totalSize n' = subtree_size s' (Node a ts)"
    "m_totalBlocks n' = subtree_blocks s' (Node a ts)"
    "m_totalItems n' = subtree_items (Node a ts)"
    "m_totalSubDirs n' = subtree_subdirs s' (Node a ts)"
    "m_totalFiles n' = subtree_files s' (Node a ts)"
    "m_latestMtime n' = subtree_mtime s' (Node a ts)"
    by (simp_all add: summary_ok_def)
  from r(1) have "recalc s a = Some s'" by (simp add: recalc_def)
  moreover from assms(1) r(5) have "is_tree s' (Node a ts)" by (simp only: same_skel_is_tree)
  ultimately show "\<exists>s' n'. recalc s a = Some s' \<and> heap s' a = Some n' \<and> \<not> m_summaryDirty n' \<and>
               m_totalSize n' = subtree_size s' (Node a ts) \<and>
               m_totalBlocks n' = subtree_blocks s' (Node a ts) \<and>
               m_totalItems n' = subtree_items (Node a ts) \<and>
               m_totalSubDirs n' = subtree_subdirs s' (Node a ts) \<and>
               m_totalFiles n' = subtree_files s' (Node a ts) \<and>
               m_latestMtime n' = subtree_mtime s' (Node a ts) \<and>
               is_tree s' (Node a ts) \<and> all_ok s' (Node a ts) \<and> same_skel s s'"
    using r(2,4,5,6) sums by blast
next
  assume ok: "all_ok s (Node a ts)"
  from accessor_correct_all[OF assms ok]
  obtain s' n' where r: "\<And>f. exec (Accessor f a) s = Some (summary_val f n', s')"
    "heap s' a = Some n'" "recalc_post s s' (Node a ts)" by auto
  from r(3) have p: "same_skel s s'" "all_ok s' (Node a ts)" "settled s' a"
    by (simp_all add: recalc_post_def)
  from assms(1) p(1) have tr: "is_tree s' (Node a ts)" by (simp only: same_skel_is_tree)
  have rt: "heap s' (root (Node a ts)) = Some n'" "settled s' (root (Node a ts))"
    using r(2) p(3) by simp_all
  note sums = summary_val_sums[OF tr p(2) rt]
  have "totalSize s a = Some (subtree_size s' (Node a ts), s')"
    "totalBlocks s a = Some (subtree_blocks s' (Node a ts), s')"
    "totalItems s a = Some (subtree_items (Node a ts), s')"
    "totalSubDirs s a = Some (subtree_subdirs s' (Node a ts), s')"
    "totalFiles s a = Some (subtree_files s' (Node a ts), s')"
    "latestMtime s a = Some (subtree_mtime s' (Node a ts), s')"
    by (simp_all add: totalSize_def totalBlocks_def totalItems_def totalSubDirs_def
        totalFiles_def latestMtime_def r(1) sums)
  with tr p(1,2) show "\<exists>s'. totalSize s a = Some (subtree_size s' (Node a ts), s') \<and>
               totalBlocks s a = Some (subtree_blocks s' (Node a ts), s') \<and>
               totalItems s a = Some (subtree_items (Node a ts), s') \<and>
               totalSubDirs s a = Some (subtree_subdirs s' (Node a ts), s') \<and>
               totalFiles s a = Some (subtree_files s' (Node a ts), s') \<and>
               latestMtime s a = Some (subtree_mtime s' (Node a ts), s') \<and>
               is_tree s' (Node a ts) \<and> all_ok s' (Node a ts) \<and> same_skel s s'"
    by blast
qed

theorem recalc_subtree_sums_witness:
  "\<exists>s s' n'. after_delete = Some s \<and> is_tree s (Node 2 [Node 5 [Node 7 []]]) \<and>
     distinct (nodes (Node 2 [Node 5 [Node 7 []]])) \<and> field isDirInfo False s 2 \<and>
     all_ok s (Node 2 [Node 5 [Node 7 []]]) \<and>
     recalc s 2 = Some s' \<and> heap s' 2 = Some n' \<and> \<not> m_summaryDirty n' \<and>
     m_totalSize n' = 50 \<and> m_totalItems n' = 2 \<and>
     totalSize s 2 = Some (50, s') \<and> totalItems s 2 = Some (2, s')"
proof -
  let ?t = "Node 2 [Node 5 [Node 7 []]]"
  from after_delete_facts obtain s n where s: "after_delete = Some s" "heap s 2 = Some n"
    "isDirInfo n" "is_tree s ?t" "all_ok s ?t" "subtree_size s ?t = 50" "subtree_items ?t = 2"
    and dn: "m_summaryDirty n"
    by blast
  have d: "distinct (nodes ?t)" by simp
  from s(2,3) have f: "field isDirInfo False s 2" by (simp add: field_def)
  from s(5) have below: "\<forall>t\<in>set [Node 5 [Node 7 []]]. all_ok s t" by simp
  note inst = recalc_subtree_sums[OF s(4) d]
  from inst f below obtain s' n' where r: "recalc s 2 = Some s'" "heap s' 2 = Some n'"
    "\<not> m_summaryDirty n'" "m_totalSize n' = subtree_size s' ?t" "m_totalItems n' = subtree_items ?t"
    "same_skel s s'" by blast
  from inst s(5) obtain s2 where a: "totalSize s 2 = Some (subtree_size s2 ?t, s2)"
    "totalItems s 2 = Some (subtree_items ?t, s2)" "same_skel s s2" by blast
  have "exec (Accessor TotalSize 2) s =
      exec (Recalc 2) s \<bind> (\<lambda>r. heap (snd r) 2 \<bind> (\<lambda>n1. Some (cached TotalSize n1, snd r)))"
    by (rule exec_Accessor_dirty[OF s(2,3) dn])
  with a(1) r(1) have "s2 = s'"
    by (auto simp: totalSize_def recalc_def split: bind_splits)
  have sz: "subtree_size s' ?t = 50" using same_skel_specs(1)[OF r(6), of ?t] s(6) by simp
  from r(4,5) sz s(7) have v: "m_totalSize n' = 50" "m_totalItems n' = 2" by simp_all
  from a(1,2) \<open>s2 = s'\<close> sz s(7) have acc: "totalSize s 2 = Some (50, s')"
    "totalItems s 2 = Some (2, s')" by simp_all
  from s(1,4,5) d f r(1,2,3) v acc show ?thesis by blast
qed

lemma accessor_sums:
  assumes "is_tree s t" and "distinct (nodes t)" and "all_ok s t"
  shows "\<exists>s'. exec (Accessor TotalSize (root t)) s = Some (subtree_size s t, s') \<and>
           exec (Accessor TotalItems (root t)) s = Some (subtree_items t, s') \<and>
           recalc_post s s' t"
proof -
  from accessor_correct_all[OF assms]
  obtain s' n' where r: "\<And>f. exec (Accessor f (root t)) s = Some (summary_val f n', s')"
    "heap s' (root t) = Some n'" "recalc_post s s' t" by auto
  from r(3) have p: "same_skel s s'" "all_ok s' t" "settled s' (root t)"
    by (simp_all add: recalc_post_def)
  from assms(1) p(1) have tr: "is_tree s' t" by (simp only: same_skel_is_tree)
  note sums = summary_val_sums[OF tr p(2) r(2) p(3)]
  from sums(1,3) have "summary_val TotalSize n' = subtree_size s t"
    "summary_val TotalItems n' = subtree_items t"
    by (simp_all add: same_skel_specs[OF p(1)])
  with r(1)[of TotalSize] r(1)[of TotalItems] r(3) show ?thesis by auto
qed


section \<open>Subtrees and insertion\<close>

lemma nodes_cells: "set (nodes t) \<subseteq> set (cells s t)"
  by (induction t) auto

lemma root_cells: "root t \<in> set (cells s t)"
  by (cases t) simp

text \<open>What the iterator yields depends on the object, its dot entry and the objects
  yielded.\<close>

lemma items_local:
  assumes "items s a = Some xs" and a: "heap s' a = heap s a"
    and d: "\<And>d. field m_dotEntry None s a = Some d \<Longrightarrow> heap s' d = heap s d"
    and xs: "\<And>x. x \<in> set xs \<Longrightarrow> heap s' x = heap s x"
  shows "items s' a = Some xs"
proof -
  from assms(1) obtain n where n: "heap s a = Some n" by (cases "heap s a") (simp_all add: items_def)
  show ?thesis
  proof (cases "isDirInfo n")
    case False
    with assms(1) n a show ?thesis by (simp add: items_def)
  next
    case True
    with assms(1) n have it: "FileInfoIterator s a = Some xs" by (simp add: items_def)
    then obtain cs ds where cs: "children s a = Some cs"
      and ds: "(case m_dotEntry n of None \<Rightarrow> Some [] | Some d \<Rightarrow> children s d) = Some ds"
      and x: "xs = cs @ ds"
      using n by (auto simp: FileInfoIterator_def split: bind_splits)
    from cs n have "follow m_next s (m_firstChild n) = Some cs" by (simp add: children_Some)
    then have "follow m_next s' (m_firstChild n) = Some cs"
      by (rule follow_agree_on) (simp add: xs x)
    with n a have cs': "children s' a = Some cs" by (simp add: children_Some)
    have ds': "(case m_dotEntry n of None \<Rightarrow> Some [] | Some d \<Rightarrow> children s' d) = Some ds"
    proof (cases "m_dotEntry n")
      case None
      with ds show ?thesis by simp
    next
      case (Some d0)
      with ds obtain dn where dn: "heap s d0 = Some dn"
        "follow m_next s (m_firstChild dn) = Some ds"
        by (auto simp: children_Some)
      from Some n have "heap s' d0 = heap s d0" by (intro d) (simp add: field_def)
      moreover from dn(2) have "follow m_next s' (m_firstChild dn) = Some ds"
        by (rule follow_agree_on) (simp add: xs x)
      ultimately show ?thesis using Some dn by (simp add: children_Some)
    qed
    from cs' ds' n a x True show ?thesis
      by (simp add: items_def FileInfoIterator_def)
  qed
qed

lemma is_tree_local:
  "is_tree s t \<Longrightarrow> (\<And>x. x \<in> set (cells s t) \<Longrightarrow> heap s' x = heap s x) \<Longrightarrow> is_tree s' t"
proof (induction t)
  case (Node a ts)
  from Node.prems(1) have it: "items s a = Some (map root ts)" and sub: "\<forall>u\<in>set ts. is_tree s u"
    by simp_all
  have "items s' a = Some (map root ts)"
  proof (rule items_local[OF it])
    show "heap s' a = heap s a" by (rule Node.prems(2)) simp
  next
    fix d assume "field m_dotEntry None s a = Some d"
    then show "heap s' d = heap s d" by (intro Node.prems(2)) simp
  next
    fix x assume "x \<in> set (map root ts)"
    then obtain u where "u \<in> set ts" "x = root u" by auto
    then have "x \<in> set (cells s (Node a ts))" using root_cells[of u s] by auto
    then show "heap s' x = heap s x" by (rule Node.prems(2))
  qed
  moreover have "is_tree s' u" if u: "u \<in> set ts" for u
  proof (rule Node.IH[OF u])
    from sub u show "is_tree s u" by simp
  next
    fix x assume "x \<in> set (cells s u)"
    with u have "x \<in> set (cells s (Node a ts))" by auto
    then show "heap s' x = heap s x" by (rule Node.prems(2))
  qed
  ultimately show ?case by simp
qed

lemma field_local: "heap s' x = heap s x \<Longrightarrow> field f d s' x = field f d s x"
  by (simp add: field_def)

lemma specs_local:
  assumes "\<And>x. x \<in> set (nodes t) \<Longrightarrow> heap s' x = heap s x"
  shows "subtree_size s' t = subtree_size s t" "subtree_blocks s' t = subtree_blocks s t"
    "subtree_subdirs s' t = subtree_subdirs s t" "subtree_files s' t = subtree_files s t"
    "subtree_mtime s' t = subtree_mtime s t"
proof -
  have f: "field f d s' x = field f d s x" if "x \<in> set (nodes t)" for f :: "node \<Rightarrow> 'a" and d x
    using assms[OF that] by (rule field_local)
  have g: "x \<in> set (nodes t)" if "x \<in> set (descendants t)" for x
    using that by (cases t) (simp add: descendants_def)
  show "subtree_size s' t = subtree_size s t" "subtree_blocks s' t = subtree_blocks s t"
    unfolding subtree_size_def subtree_blocks_def
    by (rule arg_cong[where f = sum_list], rule map_cong[OF refl], rule f, assumption)+
  show "subtree_subdirs s' t = subtree_subdirs s t" "subtree_files s' t = subtree_files s t"
    unfolding subtree_subdirs_def subtree_files_def
    by (rule arg_cong[where f = "\<lambda>xs. int (length xs)"], rule filter_cong[OF refl], rule f,
        erule g)+
  show "subtree_mtime s' t = subtree_mtime s t"
    unfolding subtree_mtime_def
    by (rule arg_cong[where f = "\<lambda>xs. Max (set xs)"], rule map_cong[OF refl], rule f, assumption)
qed

lemma all_ok_local:
  "(\<And>x. x \<in> set (nodes t) \<Longrightarrow> heap s' x = heap s x) \<Longrightarrow> all_ok s' t = all_ok s t"
proof (induction t)
  case (Node a ts)
  have "all_ok s' u = all_ok s u" if u: "u \<in> set ts" for u
  proof (rule Node.IH[OF u])
    fix x assume "x \<in> set (nodes u)"
    with u have "x \<in> set (nodes (Node a ts))" by auto
    then show "heap s' x = heap s x" by (rule Node.prems)
  qed
  moreover have "summary_ok s' (Node a ts) = summary_ok s (Node a ts)"
    using Node.prems[of a] specs_local[of "Node a ts" s' s, OF Node.prems]
    by (simp add: summary_ok_def split: option.splits)
  ultimately show ?case by simp
qed

lemma distinct_nodes_cells: "distinct (cells s t) \<Longrightarrow> distinct (nodes t)"
proof (induction t)
  case (Node a ts)
  from Node.prems have d: "distinct (concat (map (cells s) ts))"
    and a: "a \<notin> set (concat (map (cells s) ts))" by simp_all
  have sub: "distinct (nodes u) \<and> set (nodes u) \<subseteq> set (cells s u)" if u: "u \<in> set ts" for u
    using Node.IH[OF u distinct_concat_part[OF d u]] nodes_cells[of u s] by simp
  have "distinct (concat (map nodes ts))"
    by (rule distinct_concat_sub[OF d]) (rule sub)
  moreover have "set (concat (map nodes ts)) \<subseteq> set (concat (map (cells s) ts))"
    using sub by fastforce
  ultimately show ?case using a by auto
qed

text \<open>The subtree of a directory after a file has become the head of the children of its dot
  entry: the file is a new leaf behind the direct children.\<close>

lemma insert_under_dot:
  assumes n: "heap s a = Some n" "m_dotEntry n = Some d" "isDirInfo n"
    and e: "heap s c = Some e" "\<not> isDirInfo e"
    and dn: "heap s d = Some dn"
    and cs: "children s a = Some cs" and ds: "children s d = Some ds"
    and tree: "is_tree s (Node a ts)" and dist: "distinct (cells s (Node a ts))"
    and fresh: "c \<notin> set (cells s (Node a ts))" "c \<notin> set ps"
      "set ps \<inter> set (cells s (Node a ts)) = {}"
    and s': "s' = upd_each (d # a # ps) (child_delta e) (link_child d c s)"
  shows "is_tree s' (Node a (take (length cs) ts @ Node c [] # drop (length cs) ts))"
    and "\<forall>u\<in>set ts. all_ok s' u = all_ok s u"
    and "all_ok s' (Node c [])"
    and "heap s' a = Some (child_delta e n)"
proof -
  let ?rest = "concat (map (cells s) ts)"
  from n have cl: "cells s (Node a ts) = a # d # ?rest" by (simp add: field_def)
  from dist have "distinct (a # d # ?rest)" unfolding cl .
  then have ad: "a \<noteq> d" "a \<notin> set ?rest" "d \<notin> set ?rest" by auto
  from fresh(1) have "c \<notin> set (a # d # ?rest)" unfolding cl .
  then have c: "c \<noteq> a" "c \<noteq> d" "c \<notin> set ?rest" by auto
  from fresh(3) have "set ps \<inter> set (a # d # ?rest) = {}" unfolding cl .
  then have ps: "a \<notin> set ps" "d \<notin> set ps" "\<forall>x\<in>set ?rest. x \<notin> set ps" by auto
  from tree n cs ds have roots: "map root ts = cs @ ds"
    by (simp add: items_def FileInfoIterator_def)
  have rin: "set (map root ts) \<subseteq> set ?rest"
    using root_cells[of _ s] by fastforce
  with c(3) roots have cnot: "c \<notin> set cs" "c \<notin> set ds" by auto
  have lh: "heap (link_child d c s) =
      (heap s)(d \<mapsto> dn\<lparr>m_firstChild := Some c\<rparr>,
               c \<mapsto> e\<lparr>m_next := m_firstChild dn, m_parent := Some d\<rparr>)"
    using link_child_heap[OF dn e(1)] c(2) by simp
  have frame: "heap s' x = heap s x" if "x \<in> set ?rest" for x
    using that ad c ps unfolding s' by (auto simp: lh)
  have ha: "heap s' a = Some (child_delta e n)"
    unfolding s' using n ad c by (simp add: lh)
  have hc: "heap s' c = Some (e\<lparr>m_next := m_firstChild dn, m_parent := Some d\<rparr>)"
    unfolding s' using c fresh(2) by (simp add: lh)
  have ca: "children s' a = Some cs"
    unfolding s' using children_link_child_other[OF dn e(1) cs cnot(1) ad(1)] c(1)
    by (simp add: children_upd_each)
  have cd: "children s' d = Some (c # ds)"
    unfolding s' using children_link_child[OF dn e(1) ds cnot(2)]
    by (simp add: children_upd_each)
  from ha n ca cd have ia: "items s' a = Some (cs @ c # ds)"
    by (simp add: items_def FileInfoIterator_def)
  have "map root (take (length cs) ts @ Node c [] # drop (length cs) ts)
      = take (length cs) (map root ts) @ c # drop (length cs) (map root ts)"
    by (simp add: take_map drop_map)
  also have "\<dots> = cs @ c # ds" by (simp add: roots)
  finally have mr: "map root (take (length cs) ts @ Node c [] # drop (length cs) ts) = cs @ c # ds" .
  from hc e(2) have ic: "items s' c = Some []" by (simp add: items_def)
  have sub: "is_tree s' u \<and> all_ok s' u = all_ok s u" if u: "u \<in> set ts" for u
  proof
    from tree u have "is_tree s u" by simp
    then show "is_tree s' u"
    proof (rule is_tree_local)
      fix x assume "x \<in> set (cells s u)"
      with u have "x \<in> set ?rest" by auto
      then show "heap s' x = heap s x" by (rule frame)
    qed
    show "all_ok s' u = all_ok s u"
    proof (rule all_ok_local)
      fix x assume "x \<in> set (nodes u)"
      with u nodes_cells[of u s] have "x \<in> set ?rest" by auto
      then show "heap s' x = heap s x" by (rule frame)
    qed
  qed
  have "\<forall>u\<in>set (take (length cs) ts @ Node c [] # drop (length cs) ts). is_tree s' u"
    using sub ic by (auto dest: in_set_takeD in_set_dropD)
  with ia mr show "is_tree s' (Node a (take (length cs) ts @ Node c [] # drop (length cs) ts))"
    by (simp del: map_append)
  from sub show "\<forall>u\<in>set ts. all_ok s' u = all_ok s u" by simp
  from hc e(2) show "all_ok s' (Node c [])" by (simp add: summary_ok_def)
  from ha show "heap s' a = Some (child_delta e n)" .
qed

lemma summary_ok_dirty: "heap s (root t) = Some n \<Longrightarrow> m_summaryDirty n \<Longrightarrow> summary_ok s t"
  by (simp add: summary_ok_def)

lemma nodes_insert:
  "concat (map nodes (take k ts @ Node c [] # drop k ts)) =
     concat (map nodes (take k ts)) @ c # concat (map nodes (drop k ts))"
  by simp

lemma nodes_take_drop:
  "concat (map nodes (take k ts)) @ concat (map nodes (drop k ts)) = concat (map nodes ts)"
  by (metis append_take_drop_id concat_append map_append)

lemma distinct_insert:
  assumes "distinct (nodes (Node a ts))" and "c \<notin> set (nodes (Node a ts))"
  shows "distinct (nodes (Node a (take k ts @ Node c [] # drop k ts)))"
proof -
  let ?A = "concat (map nodes (take k ts))" and ?B = "concat (map nodes (drop k ts))"
  have eq: "?A @ ?B = concat (map nodes ts)" by (rule nodes_take_drop)
  from assms have "distinct (a # (?A @ ?B))" "c \<notin> set (a # (?A @ ?B))"
    unfolding eq by simp_all
  moreover have "nodes (Node a (take k ts @ Node c [] # drop k ts)) = a # ?A @ c # ?B"
    by simp
  ultimately show ?thesis by auto
qed

lemma items_insert:
  "subtree_items (Node a (take k ts @ Node c [] # drop k ts)) = subtree_items (Node a ts) + 1"
proof -
  have "length (concat (map nodes (take k ts)) @ concat (map nodes (drop k ts)))
      = length (concat (map nodes ts))"
    by (simp only: nodes_take_drop)
  then show ?thesis
    by (simp add: subtree_items_def)
qed

text \<open>
  C4: \<^verbatim>\<open>insertChild\<close> links the entry at the head of this directory's children list, sets
  its parent and calls \<^verbatim>\<open>childAdded\<close> if the entry is a directory, or there is no dot entry, or
  this is a dot entry; otherwise the call is the dot entry's \<^verbatim>\<open>insertChild\<close>. A plain file
  inserted into a directory with a dot entry becomes the head of the dot entry's children and
  is no direct child of the directory, and \<^verbatim>\<open>totalItems()\<close> of the directory counts it: if the
  summary of the directory is not dirty, the accessor returns one more than before; if it is
  dirty (so that the accessor recalculates), the file is a leaf of the directory's subtree
  and the accessor returns one more than it would have returned before the insertion, the
  number of entries of the subtree.
\<close>

theorem insertChild_routing:
  assumes "heap s a = Some n" and "heap s c = Some e"
  shows
    "(isDir e \<or> m_dotEntry n = None \<or> m_isDotEntry n \<longrightarrow>
        insertChild s a c = childAdded (link_child a c s) a c \<and>
        (\<forall>s'. insertChild s a c = Some s' \<longrightarrow>
           map_option m_firstChild (heap s' a) = Some (Some c) \<and>
           map_option m_parent (heap s' c) = Some (Some a) \<and>
           map_option m_next (heap s' c) = Some (m_firstChild n)) \<and>
        (\<forall>ps. ancestors s a = Some ps \<and> c \<notin> set (a # ps) \<longrightarrow>
           insertChild s a c = Some (upd_each (a # ps) (child_delta e) (link_child a c s)))) \<and>
     (\<not> isDir e \<and> \<not> m_isDotEntry n \<longrightarrow>
        (\<forall>d. m_dotEntry n = Some d \<longrightarrow> insertChild s a c = insertChild s d c)) \<and>
     (\<forall>d dn ps cs ds.
        \<not> isDir e \<and> \<not> m_isDotEntry n \<and> m_dotEntry n = Some d \<and>
        heap s d = Some dn \<and> m_isDotEntry dn \<and> ancestors s d = Some (a # ps) \<and>
        children s a = Some cs \<and> children s d = Some ds \<and>
        c \<notin> set (d # a # ps) \<and> c \<notin> set cs \<and> c \<notin> set ds \<longrightarrow>
        (\<exists>s'. insertChild s a c = Some s' \<and>
              children s' d = Some (c # ds) \<and>
              children s' a = Some cs \<and> c \<notin> set cs \<and>
              map_option m_parent (heap s' c) = Some (Some d) \<and>
              (isDirInfo n \<and> \<not> m_summaryDirty n \<longrightarrow>
                 totalItems s a = Some (m_totalItems n, s) \<and>
                 totalItems s' a = Some (m_totalItems n + 1, s')) \<and>
              (\<forall>ts. isDirInfo n \<and> m_summaryDirty n \<and> \<not> isDirInfo e \<and>
                 is_tree s (Node a ts) \<and> distinct (cells s (Node a ts)) \<and>
                 c \<notin> set (cells s (Node a ts)) \<and>
                 set ps \<inter> set (cells s (Node a ts)) = {} \<and>
                 (\<forall>u\<in>set ts. all_ok s u) \<longrightarrow>
                 is_tree s' (Node a (take (length cs) ts @ Node c [] # drop (length cs) ts)) \<and>
                 (\<exists>s0 s2. totalItems s a = Some (subtree_items (Node a ts), s0) \<and>
                    totalItems s' a = Some (subtree_items (Node a ts) + 1, s2)))))"
proof (intro conjI)
  show "isDir e \<or> m_dotEntry n = None \<or> m_isDotEntry n \<longrightarrow>
        insertChild s a c = childAdded (link_child a c s) a c \<and>
        (\<forall>s'. insertChild s a c = Some s' \<longrightarrow>
           map_option m_firstChild (heap s' a) = Some (Some c) \<and>
           map_option m_parent (heap s' c) = Some (Some a) \<and>
           map_option m_next (heap s' c) = Some (m_firstChild n)) \<and>
        (\<forall>ps. ancestors s a = Some ps \<and> c \<notin> set (a # ps) \<longrightarrow>
           insertChild s a c = Some (upd_each (a # ps) (child_delta e) (link_child a c s)))"
  proof (rule impI, intro conjI)
    assume c: "isDir e \<or> m_dotEntry n = None \<or> m_isDotEntry n"
    with assms show eq: "insertChild s a c = childAdded (link_child a c s) a c"
      by (simp add: insertChild_unfold)
    show "\<forall>s'. insertChild s a c = Some s' \<longrightarrow>
           map_option m_firstChild (heap s' a) = Some (Some c) \<and>
           map_option m_parent (heap s' c) = Some (Some a) \<and>
           map_option m_next (heap s' c) = Some (m_firstChild n)"
    proof (intro allI impI)
      fix s' assume "insertChild s a c = Some s'"
      with eq have "childAdded (link_child a c s) a c = Some s'" by simp
      from childAdded_links[OF this]
      have l: "map_option links (heap s' x) = map_option links (heap (link_child a c s) x)" for x
        by simp
      from l[of a] l[of c] assms
      show "map_option m_firstChild (heap s' a) = Some (Some c) \<and>
           map_option m_parent (heap s' c) = Some (Some a) \<and>
           map_option m_next (heap s' c) = Some (m_firstChild n)"
        by (auto simp: link_child_heap links_def split: if_splits)
    qed
    show "\<forall>ps. ancestors s a = Some ps \<and> c \<notin> set (a # ps) \<longrightarrow>
           insertChild s a c = Some (upd_each (a # ps) (child_delta e) (link_child a c s))"
    proof (intro allI impI)
      fix ps assume ps: "ancestors s a = Some ps \<and> c \<notin> set (a # ps)"
      with assms have anc: "ancestors (link_child a c s) a = Some ps"
        by (intro ancestors_link_child) auto
      from ps assms obtain e' where "heap (link_child a c s) c = Some e'" "m_size e' = m_size e"
        "m_blocks e' = m_blocks e" "m_mtime e' = m_mtime e" "m_mode e' = m_mode e"
        by (auto simp: link_child_heap)
      from childAdded_path[OF anc this] eq
      show "insertChild s a c = Some (upd_each (a # ps) (child_delta e) (link_child a c s))"
        by simp
    qed
  qed
next
  show "\<not> isDir e \<and> \<not> m_isDotEntry n \<longrightarrow>
        (\<forall>d. m_dotEntry n = Some d \<longrightarrow> insertChild s a c = insertChild s d c)"
    using assms by (simp add: insertChild_unfold)
next
  show "\<forall>d dn ps cs ds.
        \<not> isDir e \<and> \<not> m_isDotEntry n \<and> m_dotEntry n = Some d \<and>
        heap s d = Some dn \<and> m_isDotEntry dn \<and> ancestors s d = Some (a # ps) \<and>
        children s a = Some cs \<and> children s d = Some ds \<and>
        c \<notin> set (d # a # ps) \<and> c \<notin> set cs \<and> c \<notin> set ds \<longrightarrow>
        (\<exists>s'. insertChild s a c = Some s' \<and>
              children s' d = Some (c # ds) \<and>
              children s' a = Some cs \<and> c \<notin> set cs \<and>
              map_option m_parent (heap s' c) = Some (Some d) \<and>
              (isDirInfo n \<and> \<not> m_summaryDirty n \<longrightarrow>
                 totalItems s a = Some (m_totalItems n, s) \<and>
                 totalItems s' a = Some (m_totalItems n + 1, s')) \<and>
              (\<forall>ts. isDirInfo n \<and> m_summaryDirty n \<and> \<not> isDirInfo e \<and>
                 is_tree s (Node a ts) \<and> distinct (cells s (Node a ts)) \<and>
                 c \<notin> set (cells s (Node a ts)) \<and>
                 set ps \<inter> set (cells s (Node a ts)) = {} \<and>
                 (\<forall>u\<in>set ts. all_ok s u) \<longrightarrow>
                 is_tree s' (Node a (take (length cs) ts @ Node c [] # drop (length cs) ts)) \<and>
                 (\<exists>s0 s2. totalItems s a = Some (subtree_items (Node a ts), s0) \<and>
                    totalItems s' a = Some (subtree_items (Node a ts) + 1, s2))))"
  proof (intro allI impI)
  fix d dn ps cs ds
  assume h: "\<not> isDir e \<and> \<not> m_isDotEntry n \<and> m_dotEntry n = Some d \<and>
        heap s d = Some dn \<and> m_isDotEntry dn \<and> ancestors s d = Some (a # ps) \<and>
        children s a = Some cs \<and> children s d = Some ds \<and>
        c \<notin> set (d # a # ps) \<and> c \<notin> set cs \<and> c \<notin> set ds"
  then have notc: "c \<noteq> d" "c \<noteq> a" "c \<notin> set ps" by auto
  from h have da: "a \<noteq> d" using ancestors_distinct(1)[of s d "a # ps"] by auto
  let ?l = "link_child d c s"
  let ?s' = "upd_each (d # a # ps) (child_delta e) ?l"
  from h assms have 1: "insertChild s a c = insertChild s d c"
    by (simp add: insertChild_unfold)
  from h assms(2) have 2: "insertChild s d c = childAdded ?l d c"
    by (simp add: insertChild_unfold)
  from h assms(2) have anc: "ancestors ?l d = Some (a # ps)"
    by (intro ancestors_link_child) auto
  from h assms notc obtain e' where "heap ?l c = Some e'" "m_size e' = m_size e"
    "m_blocks e' = m_blocks e" "m_mtime e' = m_mtime e" "m_mode e' = m_mode e"
    by (auto simp: link_child_heap)
  from childAdded_path[OF anc this] 1 2 have res: "insertChild s a c = Some ?s'" by simp
  have cd: "children ?s' d = Some (c # ds)"
    using h assms(2) by (simp add: children_upd_each children_link_child)
  have ca: "children ?s' a = Some cs"
    using h assms(2) da notc by (simp add: children_upd_each children_link_child_other)
  have par: "map_option m_parent (heap ?s' c) = Some (Some d)"
    using h assms(2) notc by (simp add: link_child_heap)
  have clean: "totalItems s a = Some (m_totalItems n, s) \<and>
      totalItems ?s' a = Some (m_totalItems n + 1, ?s')"
    if cl: "isDirInfo n \<and> \<not> m_summaryDirty n"
  proof -
    from cl h assms notc da have ha: "heap ?s' a = Some (add_child e n)"
      by (simp add: link_child_heap child_delta_def)
    from exec_Accessor_clean[OF assms(1), of TotalItems] cl
    have "totalItems s a = Some (m_totalItems n, s)" by (simp add: totalItems_def)
    moreover from exec_Accessor_clean[OF ha, of TotalItems] cl
    have "totalItems ?s' a = Some (m_totalItems n + 1, ?s')"
      by (simp add: totalItems_def add_child_def)
    ultimately show ?thesis by simp
  qed
  have dirty: "is_tree ?s' (Node a (take (length cs) ts @ Node c [] # drop (length cs) ts)) \<and>
      (\<exists>s0 s2. totalItems s a = Some (subtree_items (Node a ts), s0) \<and>
         totalItems ?s' a = Some (subtree_items (Node a ts) + 1, s2))"
    if t: "isDirInfo n \<and> m_summaryDirty n \<and> \<not> isDirInfo e \<and>
        is_tree s (Node a ts) \<and> distinct (cells s (Node a ts)) \<and>
        c \<notin> set (cells s (Node a ts)) \<and> set ps \<inter> set (cells s (Node a ts)) = {} \<and>
        (\<forall>u\<in>set ts. all_ok s u)" for ts
  proof -
    let ?t = "Node a ts"
    let ?t' = "Node a (take (length cs) ts @ Node c [] # drop (length cs) ts)"
    from t have dn: "isDirInfo n" "m_summaryDirty n" and leaf: "\<not> isDirInfo e"
      and tree: "is_tree s ?t" and dist: "distinct (cells s ?t)"
      and fresh: "c \<notin> set (cells s ?t)" "set ps \<inter> set (cells s ?t) = {}"
      and below: "\<forall>u\<in>set ts. all_ok s u" by simp_all
    from h have hd: "m_dotEntry n = Some d" "heap s d = Some dn" "children s a = Some cs"
      "children s d = Some ds" by simp_all
    note ins = insert_under_dot[OF assms(1) hd(1) dn(1) assms(2) leaf hd(2,3,4) tree dist
        fresh(1) notc(3) fresh(2) refl]
    from dist have dnodes: "distinct (nodes ?t)" by (rule distinct_nodes_cells)
    from fresh(1) nodes_cells[of ?t s] have cn: "c \<notin> set (nodes ?t)" by blast
    from assms(1) dn(2) below have ok: "all_ok s ?t" by (simp add: summary_ok_dirty)
    from accessor_sums[OF tree dnodes ok]
    obtain s0 where s0: "totalItems s a = Some (subtree_items ?t, s0)"
      by (auto simp: totalItems_def)
    have "summary_ok ?s' ?t'"
      by (rule summary_ok_dirty[of _ _ "child_delta e n"]) (simp_all add: ins(4) dn(2) del: heap_upd_each)
    moreover have "\<forall>u\<in>set (take (length cs) ts @ Node c [] # drop (length cs) ts). all_ok ?s' u"
      using ins(2,3) below by (auto dest: in_set_takeD in_set_dropD)
    ultimately have ok': "all_ok ?s' ?t'" by (simp only: all_ok.simps)
    from accessor_sums[OF ins(1) distinct_insert[OF dnodes cn] ok']
    obtain s2 where "totalItems ?s' a = Some (subtree_items ?t', s2)"
      by (auto simp: totalItems_def)
    then have "totalItems ?s' a = Some (subtree_items ?t + 1, s2)"
      by (simp only: items_insert)
    with s0 ins(1) show ?thesis by blast
  qed
  from res cd ca par clean dirty h
  show "\<exists>s'. insertChild s a c = Some s' \<and>
              children s' d = Some (c # ds) \<and>
              children s' a = Some cs \<and> c \<notin> set cs \<and>
              map_option m_parent (heap s' c) = Some (Some d) \<and>
              (isDirInfo n \<and> \<not> m_summaryDirty n \<longrightarrow>
                 totalItems s a = Some (m_totalItems n, s) \<and>
                 totalItems s' a = Some (m_totalItems n + 1, s')) \<and>
              (\<forall>ts. isDirInfo n \<and> m_summaryDirty n \<and> \<not> isDirInfo e \<and>
                 is_tree s (Node a ts) \<and> distinct (cells s (Node a ts)) \<and>
                 c \<notin> set (cells s (Node a ts)) \<and>
                 set ps \<inter> set (cells s (Node a ts)) = {} \<and>
                 (\<forall>u\<in>set ts. all_ok s u) \<longrightarrow>
                 is_tree s' (Node a (take (length cs) ts @ Node c [] # drop (length cs) ts)) \<and>
                 (\<exists>s0 s2. totalItems s a = Some (subtree_items (Node a ts), s0) \<and>
                    totalItems s' a = Some (subtree_items (Node a ts) + 1, s2)))"
    by blast
  qed
qed

lemma dirty_with_file_facts:
  "\<exists>s n e dn. dirty_with_file = Some s \<and> heap s 2 = Some n \<and> heap s 8 = Some e \<and>
     heap s 3 = Some dn \<and> isDirInfo n \<and> m_summaryDirty n \<and> \<not> m_isDotEntry n \<and>
     m_dotEntry n = Some 3 \<and> \<not> isDir e \<and> \<not> isDirInfo e \<and> m_isDotEntry dn \<and>
     ancestors s 3 = Some [2] \<and> children s 2 = Some [5] \<and> children s 3 = Some [] \<and>
     is_tree s (Node 2 [Node 5 [Node 7 []]]) \<and>
     cells s (Node 2 [Node 5 [Node 7 []]]) = [2, 3, 5, 6, 7] \<and>
     all_ok s (Node 5 [Node 7 []]) \<and> subtree_items (Node 2 [Node 5 [Node 7 []]]) = 2"
  by (simp add: dirty_with_file_def after_delete_def scenario_def eval_defs insertChild.simps
      childAdded.simps deletingChild.simps unlinkChild_def items_def FileInfoIterator_def
      children_def ancestors_def follow_Some summary_ok_def subtree_size_def subtree_blocks_def
      subtree_items_def subtree_subdirs_def subtree_files_def subtree_mtime_def field_def
      descendants_def is_dirty_def)

theorem insertChild_routing_witness:
  "insertChild with_file 2 4 = insertChild with_file 3 4 \<and>
   insertChild with_file 3 4 = childAdded (link_child 3 4 with_file) 3 4 \<and>
   insertChild with_file 2 4 = Some one_file \<and>
   children one_file 3 = Some [4] \<and> children one_file 2 = Some [] \<and>
   map_option m_parent (heap one_file 4) = Some (Some 3) \<and>
   totalItems with_file 2 = Some (0, with_file) \<and>
   totalItems one_file 2 = Some (1, one_file) \<and>
   (\<exists>s s' s0 s2. dirty_with_file = Some s \<and> field m_summaryDirty False s 2 \<and>
      insertChild s 2 8 = Some s' \<and> children s' 3 = Some [8] \<and> children s' 2 = Some [5] \<and>
      is_tree s' (Node 2 [Node 5 [Node 7 []], Node 8 []]) \<and>
      totalItems s 2 = Some (2, s0) \<and> totalItems s' 2 = Some (3, s2))"
proof -
  let ?F = "FileInfo_new ''F1'' Regular 100 0 0 (Some 2)"
  let ?R = "(init ((FileInfo_new ''R'' Directory 0 0 0 None)\<lparr>isDirInfo := True\<rparr>))
             \<lparr>m_isDotEntry := False, m_dotEntry := Some 3\<rparr>"
  let ?Rd = "DirInfo_asDotEntry (FileInfo_new [] Other 0 0 0 (Some 2))"
  have h2: "heap with_file 2 = Some ?R" and h3: "heap with_file 3 = Some ?Rd"
    and h4: "heap with_file 4 = Some ?F"
    by (simp_all add: with_file_facts one_dir_2 one_dir_3)
  have f: "\<not> isDir ?F" "\<not> m_isDotEntry ?R" "m_dotEntry ?R = Some 3" "m_isDotEntry ?Rd"
    "\<not> m_summaryDirty ?R" "m_totalItems ?R = 0" "isDirInfo ?R"
    by (simp_all add: eval_defs)
  from insertChild_routing[OF h2 h4] f
  have 1: "insertChild with_file 2 4 = insertChild with_file 3 4" by simp
  from insertChild_routing[OF h3 h4] f with_file_facts
  have "insertChild with_file 3 4 = childAdded (link_child 3 4 with_file) 3 4 \<and>
    insertChild with_file 3 4 = Some one_file"
    by (auto simp: one_file_def)
  then have 2: "insertChild with_file 3 4 = childAdded (link_child 3 4 with_file) 3 4"
    and 3: "insertChild with_file 3 4 = Some one_file"
    by blast+
  have pre: "\<not> isDir ?F \<and> \<not> m_isDotEntry ?R \<and> m_dotEntry ?R = Some 3 \<and>
      heap with_file 3 = Some ?Rd \<and> m_isDotEntry ?Rd \<and> ancestors with_file 3 = Some [2] \<and>
      children with_file 2 = Some [] \<and> children with_file 3 = Some [] \<and>
      4 \<notin> set [3, 2 :: addr] \<and> 4 \<notin> set ([] :: addr list) \<and> 4 \<notin> set ([] :: addr list)"
    by (simp add: f h3 with_file_facts)
  from insertChild_routing[OF h2 h4, THEN conjunct2, THEN conjunct2, rule_format,
      of 3 ?Rd "[]" "[]" "[]", OF pre] f
  obtain s' where s': "insertChild with_file 2 4 = Some s'" "children s' 3 = Some [4]"
    "children s' 2 = Some []" "map_option m_parent (heap s' 4) = Some (Some 3)"
    "totalItems with_file 2 = Some (0, with_file)" "totalItems s' 2 = Some (1, s')"
    by auto
  from s'(1) 1 3 have "s' = one_file" by simp
  with s'(2-6) have clean: "children one_file 3 = Some [4]" "children one_file 2 = Some []"
    "map_option m_parent (heap one_file 4) = Some (Some 3)"
    "totalItems with_file 2 = Some (0, with_file)" "totalItems one_file 2 = Some (1, one_file)"
    by blast+
  from 1 3 have res: "insertChild with_file 2 4 = Some one_file" by simp
  let ?t = "Node 2 [Node 5 [Node 7 []]]"
  from dirty_with_file_facts obtain s n e dn where d: "dirty_with_file = Some s"
    "heap s 2 = Some n" "heap s 8 = Some e" "heap s 3 = Some dn" "isDirInfo n"
    "m_summaryDirty n" "\<not> m_isDotEntry n" "m_dotEntry n = Some 3" "\<not> isDir e" "\<not> isDirInfo e"
    "m_isDotEntry dn" "ancestors s 3 = Some [2]" "children s 2 = Some [5]"
    "children s 3 = Some []" "is_tree s ?t" "cells s ?t = [2, 3, 5, 6, 7]"
    "all_ok s (Node 5 [Node 7 []])" "subtree_items ?t = 2"
    by blast
  from d have pre2: "\<not> isDir e \<and> \<not> m_isDotEntry n \<and> m_dotEntry n = Some 3 \<and>
      heap s 3 = Some dn \<and> m_isDotEntry dn \<and> ancestors s 3 = Some [2] \<and>
      children s 2 = Some [5] \<and> children s 3 = Some [] \<and>
      8 \<notin> set [3, 2 :: addr] \<and> 8 \<notin> set [5 :: addr] \<and> 8 \<notin> set ([] :: addr list)"
    by simp
  from insertChild_routing[OF d(2,3), THEN conjunct2, THEN conjunct2, rule_format,
      of 3 dn "[]" "[5]" "[]", OF pre2]
  obtain s2 where s2: "insertChild s 2 8 = Some s2" "children s2 3 = Some [8]"
    "children s2 2 = Some [5]"
    and cnt: "\<forall>ts. isDirInfo n \<and> m_summaryDirty n \<and> \<not> isDirInfo e \<and>
                 is_tree s (Node 2 ts) \<and> distinct (cells s (Node 2 ts)) \<and>
                 8 \<notin> set (cells s (Node 2 ts)) \<and>
                 set [] \<inter> set (cells s (Node 2 ts)) = {} \<and>
                 (\<forall>u\<in>set ts. all_ok s u) \<longrightarrow>
                 is_tree s2 (Node 2 (take (length [5 :: addr]) ts @ Node 8 [] # drop (length [5 :: addr]) ts)) \<and>
                 (\<exists>s0 s3. totalItems s 2 = Some (subtree_items (Node 2 ts), s0) \<and>
                    totalItems s2 2 = Some (subtree_items (Node 2 ts) + 1, s3))"
    by blast
  have c1: "distinct (cells s ?t)" "8 \<notin> set (cells s ?t)" "set [] \<inter> set (cells s ?t) = {}"
    unfolding d(16) by simp_all
  have a1: "\<forall>u\<in>set [Node 5 [Node 7 []]]. all_ok s u" using d(17) by simp
  from cnt[rule_format, of "[Node 5 [Node 7 []]]"] d(5,6,10,15) c1 a1
  have "is_tree s2 (Node 2 (take (length [5 :: addr]) [Node 5 [Node 7 []]] @ Node 8 [] #
            drop (length [5 :: addr]) [Node 5 [Node 7 []]])) \<and>
      (\<exists>s0 s3. totalItems s 2 = Some (subtree_items ?t, s0) \<and>
         totalItems s2 2 = Some (subtree_items ?t + 1, s3))"
    by blast
  then have "is_tree s2 (Node 2 [Node 5 [Node 7 []], Node 8 []]) \<and>
      (\<exists>s0 s3. totalItems s 2 = Some (2, s0) \<and> totalItems s2 2 = Some (3, s3))"
    unfolding d(18) by simp
  then obtain s0 s3 where "is_tree s2 (Node 2 [Node 5 [Node 7 []], Node 8 []])"
    "totalItems s 2 = Some (2, s0)" "totalItems s2 2 = Some (3, s3)"
    by blast
  moreover from d(2,6) have "field m_summaryDirty False s 2" by (simp add: field_def)
  ultimately have "\<exists>s s' s0 s2. dirty_with_file = Some s \<and> field m_summaryDirty False s 2 \<and>
      insertChild s 2 8 = Some s' \<and> children s' 3 = Some [8] \<and> children s' 2 = Some [5] \<and>
      is_tree s' (Node 2 [Node 5 [Node 7 []], Node 8 []]) \<and>
      totalItems s 2 = Some (2, s0) \<and> totalItems s' 2 = Some (3, s2)"
    using d(1) s2 by blast
  with 1 2 res clean show ?thesis by blast
qed

text \<open>The members routing depends on.\<close>

section \<open>Sequences of insertions: the tree that is built\<close>

lemma same_keys_refl [simp]: "same_keys s s"
  by (simp add: same_keys_def)

lemma same_keys_sym: "same_keys s t \<Longrightarrow> same_keys t s"
  by (simp add: same_keys_def)

lemma same_keys_trans: "same_keys s t \<Longrightarrow> same_keys t u \<Longrightarrow> same_keys s u"
  by (simp add: same_keys_def)

lemma same_keys_heap:
  assumes "same_keys s t"
  shows "heap t x = None \<longleftrightarrow> heap s x = None"
    and "heap s x = Some n \<Longrightarrow> \<exists>n'. heap t x = Some n' \<and> key n' = key n"
proof -
  from assms have e: "map_option key (heap t x) = map_option key (heap s x)"
    by (simp add: same_keys_def)
  then show "heap t x = None \<longleftrightarrow> heap s x = None"
    by (cases "heap t x"; cases "heap s x") simp_all
  from e show "heap s x = Some n \<Longrightarrow> \<exists>n'. heap t x = Some n' \<and> key n' = key n"
    by (cases "heap t x"; cases "heap s x") simp_all
qed

lemma key_eqD:
  assumes "key n' = key n"
  shows "m_parent n' = m_parent n" "m_size n' = m_size n" "m_blocks n' = m_blocks n"
    "m_mode n' = m_mode n" "m_dotEntry n' = m_dotEntry n" "m_isDotEntry n' = m_isDotEntry n"
    "isDir n' = isDir n"
  using assms by (simp_all add: key_def isDir_def)

lemma same_keys_map:
  assumes "same_keys s t" and "\<And>n n'. key n' = key n \<Longrightarrow> f n' = f n"
  shows "map_option f (heap t x) = map_option f (heap s x)"
proof (cases "heap s x")
  case None
  with same_keys_heap(1)[OF assms(1), of x] show ?thesis by simp
next
  case (Some n)
  from same_keys_heap(2)[OF assms(1) Some] obtain n' where "heap t x = Some n'" "key n' = key n"
    by blast
  with assms(2)[of n' n] Some show ?thesis by simp
qed

lemma same_keys_ancestors:
  assumes "same_keys s t"
  shows "ancestors t a = ancestors s a"
proof -
  have p: "map_option m_parent (heap t x) = map_option m_parent (heap s x)" for x
    by (rule same_keys_map[OF assms]) (erule key_eqD)
  have "follow m_parent t q = follow m_parent s q" for q
    by (rule follow_agree) (rule p)
  with p[of a] show ?thesis
    by (cases "heap s a"; cases "heap t a") (auto simp: ancestors_def)
qed

lemma same_keys_is_ancestor: "same_keys s t \<Longrightarrow> is_ancestor t x c = is_ancestor s x c"
  by (simp add: is_ancestor_def same_keys_ancestors)

lemma same_keys_top_down: "same_keys s t \<Longrightarrow> top_down t cs = top_down s cs"
  by (induction cs) (simp_all add: same_keys_ancestors)

lemma same_keys_field:
  assumes "same_keys s t" and "\<And>n n'. key n' = key n \<Longrightarrow> f n' = f n"
  shows "field f d t x = field f d s x"
proof -
  have "map_option f (heap t x) = map_option f (heap s x)"
    by (rule same_keys_map[OF assms])
  then show ?thesis
    by (cases "heap t x"; cases "heap s x") (simp_all add: field_def)
qed

lemma same_keys_below:
  assumes "same_keys s t" and "\<And>n n'. key n' = key n \<Longrightarrow> f n' = f n"
  shows "below f t cs x = below f s cs x"
  by (simp add: below_def same_keys_is_ancestor[OF assms(1)] same_keys_field[OF assms]
      cong: if_cong)

lemma route_cong:
  assumes k: "\<And>x. map_option rkey (heap t x) = map_option rkey (heap s x)"
  shows "route t a c = route s a c"
proof -
  have D: "m_mode n' = m_mode n \<and> m_dotEntry n' = m_dotEntry n \<and> m_isDotEntry n' = m_isDotEntry n
      \<and> isDir n' = isDir n" if "rkey n' = rkey n" for n n'
    using that by (simp add: rkey_def isDir_def)
  show ?thesis
  proof (cases "heap s a")
    case None
    with k[of a] show ?thesis by (simp add: route_def)
  next
    case a: (Some n)
    with k[of a] obtain n' where n': "heap t a = Some n'" "rkey n' = rkey n" by auto
    show ?thesis
    proof (cases "heap s c")
      case None
      with k[of c] a n' show ?thesis by (simp add: route_def)
    next
      case c: (Some e)
      with k[of c] obtain e' where e': "heap t c = Some e'" "rkey e' = rkey e" by auto
      note kn = D[OF n'(2)] and ke = D[OF e'(2)]
      show ?thesis
      proof (cases "m_dotEntry n")
        case None
        with a c n' e' kn ke show ?thesis by (simp add: route_def)
      next
        case d: (Some d)
        show ?thesis
        proof (cases "heap s d")
          case None
          with k[of d] a c n' e' kn ke d show ?thesis by (simp add: route_def)
        next
          case (Some dn)
          with k[of d] obtain dn' where dn': "heap t d = Some dn'" "rkey dn' = rkey dn" by auto
          note kd = D[OF dn'(2)]
          from a c n' e' kn ke d Some dn' kd show ?thesis by (simp add: route_def)
        qed
      qed
    qed
  qed
qed

lemma routes_cong:
  assumes "\<And>x. map_option rkey (heap t x) = map_option rkey (heap s x)"
  shows "routes t ops = routes s ops"
proof (induction ops)
  case Nil
  show ?case by simp
next
  case (Cons op ops)
  obtain a c where op: "op = (a, c)" by (cases op)
  have "route t a c = route s a c" by (rule route_cong) (rule assms)
  with Cons show ?case unfolding op by simp
qed

lemma same_keys_rkey:
  assumes "same_keys s t"
  shows "map_option rkey (heap t x) = map_option rkey (heap s x)"
  by (rule same_keys_map[OF assms]) (simp add: key_def rkey_def)

lemma same_keys_routes: "same_keys s t \<Longrightarrow> routes t ops = routes s ops"
  by (rule routes_cong) (rule same_keys_rkey)

lemma same_keys_upd:
  "same_keys s t \<Longrightarrow> (\<And>n n'. key n' = key n \<Longrightarrow> key (f n') = key (f n)) \<Longrightarrow>
   same_keys (upd c f s) (upd c f t)"
proof -
  assume st: "same_keys s t" and f: "\<And>n n'. key n' = key n \<Longrightarrow> key (f n') = key (f n)"
  have "map_option key (heap (upd c f t) x) = map_option key (heap (upd c f s) x)" for x
  proof (cases "x = c")
    case False
    with st show ?thesis by (simp add: same_keys_def)
  next
    case True
    show ?thesis
    proof (cases "heap s c")
      case None
      with same_keys_heap(1)[OF st, of c] True show ?thesis by simp
    next
      case (Some n)
      from same_keys_heap(2)[OF st Some] obtain n' where "heap t c = Some n'" "key n' = key n"
        by blast
      with Some True f[of n' n] show ?thesis by simp
    qed
  qed
  then show ?thesis by (simp add: same_keys_def)
qed

lemma same_keys_reparent: "same_keys s t \<Longrightarrow> same_keys (reparent r s) (reparent r t)"
proof (induction r arbitrary: s t)
  case Nil
  then show ?case by simp
next
  case (Cons cl r)
  obtain c l where cl: "cl = (c, l)" by (cases cl)
  have "same_keys (upd c (\<lambda>n. n\<lparr>m_parent := Some l\<rparr>) s) (upd c (\<lambda>n. n\<lparr>m_parent := Some l\<rparr>) t)"
    by (rule same_keys_upd[OF Cons.prems]) (simp add: key_def)
  then show ?case unfolding cl by (simp add: Cons.IH)
qed

lemma reparent_frame: "x \<notin> fst ` set r \<Longrightarrow> heap (reparent r s) x = heap s x"
  by (induction r arbitrary: s) auto

lemma reparent_own:
  "(\<And>n l. f (n\<lparr>m_parent := l\<rparr>) = f n) \<Longrightarrow>
   map_option f (heap (reparent r s) x) = map_option f (heap s x)"
proof (induction r arbitrary: s)
  case Nil
  then show ?case by simp
next
  case (Cons cl r)
  obtain c l where cl: "cl = (c, l)" by (cases cl)
  from Cons.IH[OF Cons.prems, of "upd c (\<lambda>n. n\<lparr>m_parent := Some l\<rparr>) s"] Cons.prems
  show ?case unfolding cl by (cases "x = c") (simp_all add: option.map_comp comp_def)
qed

lemma reparent_other [simp]:
  "errors (reparent r s) = errors s" "finalizeLocal_sent (reparent r s) = finalizeLocal_sent s"
  "recalc_calls (reparent r s) = recalc_calls s"
  by (induction r arbitrary: s) auto

lemma route_Some:
  assumes "route s a c = Some l"
  shows "\<exists>n e. heap s a = Some n \<and> heap s c = Some e \<and>
           (if isDir e \<or> m_dotEntry n = None \<or> m_isDotEntry n then l = a
            else m_dotEntry n = Some l \<and>
                 (\<exists>dn. heap s l = Some dn \<and> (m_dotEntry dn = None \<or> m_isDotEntry dn)))"
  using assms by (auto simp: route_def split: bind_splits if_splits)

text \<open>\<^verbatim>\<open>insertChild\<close> links the entry where the routing rule sends it.\<close>

lemma insertChild_route:
  assumes "route s a c = Some l"
  shows "insertChild s a c = childAdded (link_child l c s) l c"
proof -
  from route_Some[OF assms] obtain n e where n: "heap s a = Some n" and e: "heap s c = Some e"
    and r: "if isDir e \<or> m_dotEntry n = None \<or> m_isDotEntry n then l = a
            else m_dotEntry n = Some l \<and>
                 (\<exists>dn. heap s l = Some dn \<and> (m_dotEntry dn = None \<or> m_isDotEntry dn))"
    by blast
  show ?thesis
  proof (cases "isDir e \<or> m_dotEntry n = None \<or> m_isDotEntry n")
    case True
    with r n e show ?thesis by (simp add: insertChild_unfold)
  next
    case False
    with r obtain dn where d: "m_dotEntry n = Some l" "heap s l = Some dn"
      "m_dotEntry dn = None \<or> m_isDotEntry dn" by auto
    from False n e d(1) have "insertChild s a c = insertChild s l c"
      by (simp add: insertChild_unfold)
    also from d(2,3) e have "\<dots> = childAdded (link_child l c s) l c"
      by (simp add: insertChild_unfold)
    finally show ?thesis .
  qed
qed

lemma insertChild_at:
  assumes "route s a c = Some l" and "ancestors s l = Some K" and "c \<notin> set (l # K)"
    and "heap s c = Some e"
  shows "insertChild s a c = Some (upd_each (l # K) (child_delta e) (link_child l c s))"
proof -
  from assms(2) obtain ln where ln: "heap s l = Some ln" by (auto simp: ancestors_def split: bind_splits)
  have anc: "ancestors (link_child l c s) l = Some K"
    by (rule ancestors_link_child[OF assms(2,3,4)])
  from assms(3) have "c \<noteq> l" by auto
  with ln assms(4) obtain e' where "heap (link_child l c s) c = Some e'" "m_size e' = m_size e"
    "m_blocks e' = m_blocks e" "m_mtime e' = m_mtime e" "m_mode e' = m_mode e"
    by (auto simp: link_child_heap)
  from childAdded_path[OF anc this] insertChild_route[OF assms(1)] show ?thesis by simp
qed

text \<open>The state after one insertion, object by object.\<close>

lemma inserted_heap:
  assumes "heap s l = Some ln" and "heap s c = Some e" and "c \<notin> set (l # K)"
    and "s1 = upd_each (l # K) (child_delta e) (link_child l c s)"
  shows "heap s1 c = Some (e\<lparr>m_next := m_firstChild ln, m_parent := Some l\<rparr>)"
    and "x \<noteq> c \<Longrightarrow> heap s x = Some n \<Longrightarrow>
         heap s1 x = Some ((if x \<in> set (l # K) then child_delta e else id)
                            (if x = l then n\<lparr>m_firstChild := Some c\<rparr> else n))"
    and "recalc_calls s1 = recalc_calls s"
proof -
  from assms(3) have cl: "c \<noteq> l" by auto
  have lh: "heap (link_child l c s) =
      (heap s)(l \<mapsto> ln\<lparr>m_firstChild := Some c\<rparr>,
               c \<mapsto> e\<lparr>m_next := m_firstChild ln, m_parent := Some l\<rparr>)"
    using link_child_heap[OF assms(1,2)] cl by simp
  show "heap s1 c = Some (e\<lparr>m_next := m_firstChild ln, m_parent := Some l\<rparr>)"
    unfolding assms(4) using assms(3) cl by (simp add: lh)
  show "x \<noteq> c \<Longrightarrow> heap s x = Some n \<Longrightarrow>
         heap s1 x = Some ((if x \<in> set (l # K) then child_delta e else id)
                            (if x = l then n\<lparr>m_firstChild := Some c\<rparr> else n))"
    unfolding assms(4) using assms(1) by (auto simp: lh)
  show "recalc_calls s1 = recalc_calls s" unfolding assms(4) by simp
qed

lemma key_child_delta [simp]: "key (child_delta e n) = key n"
  by (simp add: key_def)

lemma inserted_keys:
  assumes "heap s l = Some ln" and "heap s c = Some e" and "c \<notin> set (l # K)"
    and "s1 = upd_each (l # K) (child_delta e) (link_child l c s)"
  shows "same_keys (upd c (\<lambda>n. n\<lparr>m_parent := Some l\<rparr>) s) s1"
proof -
  have "map_option key (heap s1 x) = map_option key (heap (upd c (\<lambda>n. n\<lparr>m_parent := Some l\<rparr>) s) x)"
    for x
  proof (cases "x = c")
    case True
    with inserted_heap(1)[OF assms] assms(2) show ?thesis by (simp add: key_def)
  next
    case False
    show ?thesis
    proof (cases "heap s x")
      case None
      with False assms(1) show ?thesis unfolding assms(4)
        by (auto simp: link_child_heap[OF assms(1,2)])
    next
      case (Some n)
      from inserted_heap(2)[OF assms False Some] False Some show ?thesis
        by (simp add: key_def)
    qed
  qed
  then show ?thesis by (simp add: same_keys_def)
qed

lemma below_Cons:
  "below f p (c # cs) x = (if is_ancestor p x c then field f 0 p c else 0) + below f p cs x"
  by (simp add: below_def)

lemma below_Nil [simp]: "below f p [] x = 0"
  by (simp add: below_def)

text \<open>
  A top-down sequence of insertions runs to its end; it builds the tree it is to build,
  and every summary that is not dirty has grown by the running sums.
\<close>

lemma insert_all_plan:
  "routes s ops = Some r \<Longrightarrow> distinct (map fst r) \<Longrightarrow> top_down (reparent r s) (map fst r) \<Longrightarrow>
   \<exists>s'. insert_all s ops = Some s' \<and> recalc_calls s' = recalc_calls s \<and>
     same_keys (reparent r s) s' \<and>
     (\<forall>x n. heap s x = Some n \<longrightarrow>
        (\<exists>n'. heap s' x = Some n' \<and> m_summaryDirty n' = m_summaryDirty n \<and>
              isDirInfo n' = isDirInfo n \<and>
              (\<not> m_summaryDirty n \<longrightarrow>
                 m_totalSize n' = m_totalSize n + below m_size (reparent r s) (map fst r) x \<and>
                 m_totalBlocks n' = m_totalBlocks n + below m_blocks (reparent r s) (map fst r) x \<and>
                 m_totalItems n' = m_totalItems n + below (\<lambda>_. 1) (reparent r s) (map fst r) x)))"
proof (induction ops arbitrary: s r)
  case Nil
  then show ?case by simp
next
  case (Cons op ops)
  obtain a c where op: "op = (a, c)" by (cases op)
  from Cons.prems(1) obtain l r' where l: "route s a c = Some l" and r': "routes s ops = Some r'"
    and r: "r = (c, l) # r'"
    unfolding op by (auto split: bind_splits)
  let ?s0 = "upd c (\<lambda>n. n\<lparr>m_parent := Some l\<rparr>) s"
  let ?p = "reparent r' ?s0"
  let ?cs = "map fst r'"
  have p: "reparent r s = ?p" unfolding r by simp
  from Cons.prems(2) have cnot: "c \<notin> set ?cs" and dist: "distinct ?cs" unfolding r by simp_all
  from Cons.prems(3) obtain ch where ch: "ancestors ?p c = Some ch" "set ch \<inter> set ?cs = {}"
    and td: "top_down ?p ?cs"
    unfolding r by (auto split: option.splits)
  from route_Some[OF l] obtain e where e: "heap s c = Some e" by blast
  from cnot have pc: "heap ?p c = heap ?s0 c" by (intro reparent_frame) simp
  with e have pc': "heap ?p c = Some (e\<lparr>m_parent := Some l\<rparr>)" by simp
  with ch(1) obtain K where K: "ch = l # K" "ancestors ?p l = Some K"
    by (cases ch) (auto simp: ancestors_Nil ancestors_Cons)
  from ancestors_distinct(1)[OF ch(1)] K have cK: "c \<notin> set (l # K)" by simp
  have agree: "heap ?p y = heap s y" if y: "y \<in> set (l # K)" for y
  proof -
    from y ch(2) K have "y \<notin> set ?cs" by auto
    then have "heap ?p y = heap ?s0 y" by (intro reparent_frame) simp
    moreover from y cK have "y \<noteq> c" by auto
    ultimately show ?thesis by simp
  qed
  from K(2) obtain ln where ln: "heap ?p l = Some ln" "follow m_parent ?p (m_parent ln) = Some K"
    by (auto simp: ancestors_def split: bind_splits)
  from ln(1) agree[of l] have sl: "heap s l = Some ln" by simp
  have "follow m_parent s (m_parent ln) = Some K"
    by (rule follow_agree_on[OF ln(2)]) (simp add: agree)
  with sl have anc: "ancestors s l = Some K" by (simp add: ancestors_def)
  let ?s1 = "upd_each (l # K) (child_delta e) (link_child l c s)"
  from insertChild_at[OF l anc cK e] have ins: "insertChild s a c = Some ?s1" .
  note ih = inserted_heap[OF sl e cK refl]
  have k01: "same_keys ?s0 ?s1" by (rule inserted_keys[OF sl e cK refl])
  then have kp: "same_keys ?p (reparent r' ?s1)" by (rule same_keys_reparent)
  have "routes ?s0 ops = routes s ops"
    by (rule routes_cong) (simp add: rkey_def[abs_def] option.map_comp comp_def)
  with r' same_keys_routes[OF k01, of ops] have r1: "routes ?s1 ops = Some r'" by simp
  from td have td1: "top_down (reparent r' ?s1) ?cs" by (simp add: same_keys_top_down[OF kp])
  from Cons.IH[OF r1 dist td1] obtain s' where s': "insert_all ?s1 ops = Some s'"
    "recalc_calls s' = recalc_calls ?s1" "same_keys (reparent r' ?s1) s'"
    and tot: "\<And>x n. heap ?s1 x = Some n \<Longrightarrow>
        \<exists>n'. heap s' x = Some n' \<and> m_summaryDirty n' = m_summaryDirty n \<and>
              isDirInfo n' = isDirInfo n \<and>
              (\<not> m_summaryDirty n \<longrightarrow>
                 m_totalSize n' = m_totalSize n + below m_size (reparent r' ?s1) ?cs x \<and>
                 m_totalBlocks n' = m_totalBlocks n + below m_blocks (reparent r' ?s1) ?cs x \<and>
                 m_totalItems n' = m_totalItems n + below (\<lambda>_. 1) (reparent r' ?s1) ?cs x)"
    by blast
  have b1: "below m_size (reparent r' ?s1) ?cs x = below m_size ?p ?cs x"
    "below m_blocks (reparent r' ?s1) ?cs x = below m_blocks ?p ?cs x"
    "below (\<lambda>_. 1) (reparent r' ?s1) ?cs x = below (\<lambda>_. 1) ?p ?cs x" for x
    by (rule same_keys_below[OF kp], erule key_eqD)+ (rule same_keys_below[OF kp], rule refl)
  have isa: "is_ancestor ?p x c \<longleftrightarrow> x \<in> set (l # K)" for x
    using ch(1) K(1) by (simp add: is_ancestor_def)
  have fc: "field m_size 0 ?p c = m_size e" "field m_blocks 0 ?p c = m_blocks e"
    "field (\<lambda>_. 1) (0 :: int) ?p c = 1"
    using pc' by (simp_all add: field_def)
  have step: "\<exists>n'. heap s' x = Some n' \<and> m_summaryDirty n' = m_summaryDirty n \<and>
              isDirInfo n' = isDirInfo n \<and>
              (\<not> m_summaryDirty n \<longrightarrow>
                 m_totalSize n' = m_totalSize n + below m_size ?p (c # ?cs) x \<and>
                 m_totalBlocks n' = m_totalBlocks n + below m_blocks ?p (c # ?cs) x \<and>
                 m_totalItems n' = m_totalItems n + below (\<lambda>_. 1) ?p (c # ?cs) x)"
    if x: "heap s x = Some n" for x n
  proof (cases "x = c")
    case True
    with x e have ne: "n = e" by simp
    from True cK have notanc: "x \<notin> set (l # K)" by simp
    from tot[OF ih(1)] True ne notanc show ?thesis
      by (simp add: below_Cons isa b1)
  next
    case False
    note h1 = ih(2)[OF False x]
    have "\<exists>n1. heap ?s1 x = Some n1 \<and> m_summaryDirty n1 = m_summaryDirty n \<and>
        isDirInfo n1 = isDirInfo n \<and>
        (\<not> m_summaryDirty n \<longrightarrow>
           m_totalSize n1 = m_totalSize n + (if x \<in> set (l # K) then m_size e else 0) \<and>
           m_totalBlocks n1 = m_totalBlocks n + (if x \<in> set (l # K) then m_blocks e else 0) \<and>
           m_totalItems n1 = m_totalItems n + (if x \<in> set (l # K) then 1 else 0))"
      unfolding h1
      by (cases "x = l"; cases "x \<in> set (l # K)"; cases "m_summaryDirty n")
        (simp_all add: child_delta_def add_child_def)
    then obtain n1 where n1: "heap ?s1 x = Some n1" "m_summaryDirty n1 = m_summaryDirty n"
      "isDirInfo n1 = isDirInfo n"
      "\<not> m_summaryDirty n \<Longrightarrow>
           m_totalSize n1 = m_totalSize n + (if x \<in> set (l # K) then m_size e else 0) \<and>
           m_totalBlocks n1 = m_totalBlocks n + (if x \<in> set (l # K) then m_blocks e else 0) \<and>
           m_totalItems n1 = m_totalItems n + (if x \<in> set (l # K) then 1 else 0)"
      by blast
    from tot[OF n1(1)] obtain n' where n': "heap s' x = Some n'"
      "m_summaryDirty n' = m_summaryDirty n1" "isDirInfo n' = isDirInfo n1"
      "\<not> m_summaryDirty n1 \<Longrightarrow>
                 m_totalSize n' = m_totalSize n1 + below m_size (reparent r' ?s1) ?cs x \<and>
                 m_totalBlocks n' = m_totalBlocks n1 + below m_blocks (reparent r' ?s1) ?cs x \<and>
                 m_totalItems n' = m_totalItems n1 + below (\<lambda>_. 1) (reparent r' ?s1) ?cs x"
      by blast
    have "m_totalSize n' = m_totalSize n + below m_size ?p (c # ?cs) x \<and>
          m_totalBlocks n' = m_totalBlocks n + below m_blocks ?p (c # ?cs) x \<and>
          m_totalItems n' = m_totalItems n + below (\<lambda>_. 1) ?p (c # ?cs) x"
      if cl: "\<not> m_summaryDirty n"
      using n1(4)[OF cl] n'(4) n1(2) cl
      by (simp add: below_Cons isa b1 fc del: set_simps list.set)
    with n' n1(2,3) show ?thesis by simp
  qed
  from ins s'(1) have "insert_all s (op # ops) = Some s'" unfolding op by simp
  moreover from s'(2) ih(3) have "recalc_calls s' = recalc_calls s" by simp
  moreover from kp s'(3) have "same_keys (reparent r s) s'"
    unfolding p by (rule same_keys_trans)
  ultimately show ?case using step unfolding p r by (simp del: insert_all.simps)
qed

lemma scenario_general:
  assumes "t1 < t2"
  shows "\<exists>sc n. scenario rt dt t1 t2 = Some sc \<and> heap sc 2 = Some n \<and> isDirInfo n \<and>
           \<not> m_summaryDirty n \<and> m_totalSize n = 150 \<and> m_totalItems n = 3 \<and>
           m_totalSubDirs n = 1 \<and> m_latestMtime n = max rt (max dt t2) \<and> recalc_calls sc = [] \<and>
           (\<forall>x m. heap sc x = Some m \<longrightarrow> \<not> m_summaryDirty m)"
  using assms
  by (simp add: scenario_def eval_defs insertChild.simps childAdded.simps max_def)

lemma built_facts:
  "routes built [(2, 4), (2, 5), (5, 7)] = Some [(4, 3), (5, 2), (7, 6)]"
  "top_down (reparent [(4, 3), (5, 2), (7, 6)] built) [4, 5, 7]"
  "below m_size (reparent [(4, 3), (5, 2), (7, 6)] built) [4, 5, 7] 2 = 150"
  "below (\<lambda>_. 1) (reparent [(4, 3), (5, 2), (7, 6)] built) [4, 5, 7] 2 = 3"
  "\<exists>n. heap built 2 = Some n \<and> isDirInfo n \<and> \<not> m_summaryDirty n \<and> m_totalSize n = 0 \<and>
       m_totalItems n = 0"
  "recalc_calls built = []"
  by (simp_all add: built_def route_def eval_defs ancestors_def follow_Some below_def
      is_ancestor_def field_def)

lemma bottom_up_facts:
  "\<exists>s n. bottom_up = Some s \<and> heap s 2 = Some n \<and> isDirInfo n \<and> \<not> m_summaryDirty n \<and>
     m_totalSize n = 0 \<and> m_totalItems n = 1 \<and> recalc_calls s = [] \<and>
     below m_size s [7, 5] 2 = 50 \<and> below (\<lambda>_. 1) s [7, 5] 2 = 2 \<and>
     is_tree s (Node 2 [Node 5 [Node 7 []]]) \<and>
     subtree_size s (Node 2 [Node 5 [Node 7 []]]) = 50"
  by (simp add: bottom_up_def eval_defs insertChild.simps childAdded.simps ancestors_def
      follow_Some below_def is_ancestor_def field_def items_def FileInfoIterator_def children_def
      subtree_size_def)

text \<open>
  C3 as stated fails. A directory D that gets its file F2 (size 50) before it is inserted
  into R itself leaves R with a clean summary, \<^verbatim>\<open>totalSize()\<close> 0 and \<^verbatim>\<open>totalItems()\<close> 1,
  while the entries in the subtree of R sum up to 50 and 2: \<^verbatim>\<open>childAdded\<close> adds the own values
  of the new child only, along the parent chain as it is at that moment. In the scenario
  with the own mtime 10 of R and \<open>t1 = 1 < t2 = 2\<close>, \<^verbatim>\<open>latestMtime()\<close> of R is 10, not \<open>t2\<close>.
\<close>

theorem insertChild_bottom_up_counterexample:
  "map_option fst (bottom_up \<bind> (\<lambda>s. totalSize s 2)) = Some 0 \<and>
   map_option fst (bottom_up \<bind> (\<lambda>s. totalItems s 2)) = Some 1 \<and>
   (bottom_up \<bind> (\<lambda>s. map_option m_summaryDirty (heap s 2))) = Some False \<and>
   map_option (\<lambda>s. below m_size s [7, 5] 2) bottom_up = Some 50 \<and>
   map_option (\<lambda>s. below (\<lambda>_. 1) s [7, 5] 2) bottom_up = Some 2 \<and>
   map_option (\<lambda>s. is_tree s (Node 2 [Node 5 [Node 7 []]])) bottom_up = Some True \<and>
   map_option (\<lambda>s. subtree_size s (Node 2 [Node 5 [Node 7 []]])) bottom_up = Some 50 \<and>
   subtree_items (Node 2 [Node 5 [Node 7 []]]) = 2 \<and>
   map_option fst (scenario 10 0 1 2 \<bind> (\<lambda>s. latestMtime s 2)) = Some 10"
proof -
  from bottom_up_facts obtain s n where s: "bottom_up = Some s" "heap s 2 = Some n" "isDirInfo n"
    "\<not> m_summaryDirty n" "m_totalSize n = 0" "m_totalItems n = 1"
    "below m_size s [7, 5] 2 = 50" "below (\<lambda>_. 1) s [7, 5] 2 = 2"
    "is_tree s (Node 2 [Node 5 [Node 7 []]])" "subtree_size s (Node 2 [Node 5 [Node 7 []]]) = 50"
    by blast
  from exec_Accessor_clean[OF s(2,3,4)] s(5,6)
  have acc: "totalSize s 2 = Some (0, s)" "totalItems s 2 = Some (1, s)"
    by (simp_all add: totalSize_def totalItems_def)
  from scenario_general[of 1 2 10 0] obtain sc m where sc: "scenario 10 0 1 2 = Some sc"
    "heap sc 2 = Some m" "isDirInfo m" "\<not> m_summaryDirty m" "m_latestMtime m = 10"
    by auto
  from exec_Accessor_clean[OF sc(2,3,4)] sc(5) have "latestMtime sc 2 = Some (10, sc)"
    by (simp add: latestMtime_def)
  with s(2-) acc show ?thesis unfolding s(1) sc(1) by (simp add: subtree_items_def)
qed

text \<open>
  C3, amended: let a sequence of \<^verbatim>\<open>insertChild\<close> calls insert every entry once and top-down:
  in the tree the calls are to build (every entry under the object the routing rule gives
  it), every entry has a parent chain that ends, and nothing on this chain is inserted
  later. Then the sequence runs to its end, no \<^verbatim>\<open>recalc()\<close> runs, every entry has the parent
  the tree gives it, every dirty flag is what it was (so none becomes true), and
  \<^verbatim>\<open>_totalSize\<close>, \<^verbatim>\<open>_totalBlocks\<close> and \<^verbatim>\<open>_totalItems\<close> of every object with a clean summary
  are their old values plus the sums of the own size, the own blocks and the number of the
  inserted entries in the subtree of the object; the accessors of a \<^verbatim>\<open>DirInfo\<close> return these
  values and leave the state as it is. In the scenario (with \<open>t1 < t2\<close>) the accessors of R
  return 150, 3, 1 and the maximum of \<open>t2\<close> and the own mtimes of R and D, which is \<open>t2\<close> if
  and only if neither directory is younger than F2.
\<close>

theorem insertChild_running_sums:
  "(routes s ops = Some r \<and> distinct (map fst r) \<and> top_down (reparent r s) (map fst r) \<longrightarrow>
      (\<exists>s'. insert_all s ops = Some s' \<and> recalc_calls s' = recalc_calls s \<and>
         (\<forall>x. map_option m_parent (heap s' x) = map_option m_parent (heap (reparent r s) x)) \<and>
         (\<forall>x n. heap s x = Some n \<longrightarrow>
            (\<exists>n'. heap s' x = Some n' \<and> m_summaryDirty n' = m_summaryDirty n \<and>
               (\<not> m_summaryDirty n \<longrightarrow>
                  m_totalSize n' = m_totalSize n + below m_size (reparent r s) (map fst r) x \<and>
                  m_totalBlocks n' = m_totalBlocks n + below m_blocks (reparent r s) (map fst r) x \<and>
                  m_totalItems n' = m_totalItems n + below (\<lambda>_. 1) (reparent r s) (map fst r) x \<and>
                  (isDirInfo n \<longrightarrow>
                     totalSize s' x = Some (m_totalSize n', s') \<and>
                     totalBlocks s' x = Some (m_totalBlocks n', s') \<and>
                     totalItems s' x = Some (m_totalItems n', s'))))))) \<and>
   (t1 < t2 \<longrightarrow>
      (\<exists>sc. scenario rt dt t1 t2 = Some sc \<and>
         totalSize sc 2 = Some (150, sc) \<and> totalItems sc 2 = Some (3, sc) \<and>
         totalSubDirs sc 2 = Some (1, sc) \<and>
         latestMtime sc 2 = Some (max rt (max dt t2), sc) \<and>
         (latestMtime sc 2 = Some (t2, sc) \<longleftrightarrow> rt \<le> t2 \<and> dt \<le> t2) \<and>
         recalc_calls sc = [] \<and> (\<forall>y m. heap sc y = Some m \<longrightarrow> \<not> m_summaryDirty m)))"
proof (rule conjI; rule impI)
  assume h: "routes s ops = Some r \<and> distinct (map fst r) \<and> top_down (reparent r s) (map fst r)"
  then have h1: "routes s ops = Some r" and h2: "distinct (map fst r)"
    and h3: "top_down (reparent r s) (map fst r)" by simp_all
  from insert_all_plan[OF h1 h2 h3] obtain s' where s': "insert_all s ops = Some s'"
    "recalc_calls s' = recalc_calls s" "same_keys (reparent r s) s'"
    and tot: "\<And>x n. heap s x = Some n \<Longrightarrow>
        \<exists>n'. heap s' x = Some n' \<and> m_summaryDirty n' = m_summaryDirty n \<and>
              isDirInfo n' = isDirInfo n \<and>
              (\<not> m_summaryDirty n \<longrightarrow>
                 m_totalSize n' = m_totalSize n + below m_size (reparent r s) (map fst r) x \<and>
                 m_totalBlocks n' = m_totalBlocks n + below m_blocks (reparent r s) (map fst r) x \<and>
                 m_totalItems n' = m_totalItems n + below (\<lambda>_. 1) (reparent r s) (map fst r) x)"
    by blast
  have par: "map_option m_parent (heap s' x) = map_option m_parent (heap (reparent r s) x)" for x
    by (rule same_keys_map[OF s'(3)]) (erule key_eqD)
  have res: "\<exists>n'. heap s' x = Some n' \<and> m_summaryDirty n' = m_summaryDirty n \<and>
               (\<not> m_summaryDirty n \<longrightarrow>
                  m_totalSize n' = m_totalSize n + below m_size (reparent r s) (map fst r) x \<and>
                  m_totalBlocks n' = m_totalBlocks n + below m_blocks (reparent r s) (map fst r) x \<and>
                  m_totalItems n' = m_totalItems n + below (\<lambda>_. 1) (reparent r s) (map fst r) x \<and>
                  (isDirInfo n \<longrightarrow>
                     totalSize s' x = Some (m_totalSize n', s') \<and>
                     totalBlocks s' x = Some (m_totalBlocks n', s') \<and>
                     totalItems s' x = Some (m_totalItems n', s')))"
    if x: "heap s x = Some n" for x n
  proof -
    from tot[OF x] obtain n' where n': "heap s' x = Some n'" "m_summaryDirty n' = m_summaryDirty n"
      "isDirInfo n' = isDirInfo n"
      "\<not> m_summaryDirty n \<longrightarrow>
                 m_totalSize n' = m_totalSize n + below m_size (reparent r s) (map fst r) x \<and>
                 m_totalBlocks n' = m_totalBlocks n + below m_blocks (reparent r s) (map fst r) x \<and>
                 m_totalItems n' = m_totalItems n + below (\<lambda>_. 1) (reparent r s) (map fst r) x"
      by blast
    have "totalSize s' x = Some (m_totalSize n', s') \<and>
          totalBlocks s' x = Some (m_totalBlocks n', s') \<and>
          totalItems s' x = Some (m_totalItems n', s')"
      if "\<not> m_summaryDirty n" "isDirInfo n"
      using exec_Accessor_clean[OF n'(1)] n'(2,3) that
      by (simp add: totalSize_def totalBlocks_def totalItems_def)
    with n' show ?thesis by blast
  qed
  from s'(1,2) par res
  show "\<exists>s'. insert_all s ops = Some s' \<and> recalc_calls s' = recalc_calls s \<and>
         (\<forall>x. map_option m_parent (heap s' x) = map_option m_parent (heap (reparent r s) x)) \<and>
         (\<forall>x n. heap s x = Some n \<longrightarrow>
            (\<exists>n'. heap s' x = Some n' \<and> m_summaryDirty n' = m_summaryDirty n \<and>
               (\<not> m_summaryDirty n \<longrightarrow>
                  m_totalSize n' = m_totalSize n + below m_size (reparent r s) (map fst r) x \<and>
                  m_totalBlocks n' = m_totalBlocks n + below m_blocks (reparent r s) (map fst r) x \<and>
                  m_totalItems n' = m_totalItems n + below (\<lambda>_. 1) (reparent r s) (map fst r) x \<and>
                  (isDirInfo n \<longrightarrow>
                     totalSize s' x = Some (m_totalSize n', s') \<and>
                     totalBlocks s' x = Some (m_totalBlocks n', s') \<and>
                     totalItems s' x = Some (m_totalItems n', s')))))"
    by blast
next
  assume t: "t1 < t2"
  from scenario_general[OF t, of rt dt]
  obtain sc n where sc: "scenario rt dt t1 t2 = Some sc" "heap sc 2 = Some n" "isDirInfo n"
    "\<not> m_summaryDirty n" "m_totalSize n = 150" "m_totalItems n = 3"
    "m_totalSubDirs n = 1" "m_latestMtime n = max rt (max dt t2)" "recalc_calls sc = []"
    "\<forall>x m. heap sc x = Some m \<longrightarrow> \<not> m_summaryDirty m"
    by blast
  from exec_Accessor_clean[OF sc(2-4)] sc(5-8)
  have acc: "totalSize sc 2 = Some (150, sc)" "totalItems sc 2 = Some (3, sc)"
    "totalSubDirs sc 2 = Some (1, sc)" "latestMtime sc 2 = Some (max rt (max dt t2), sc)"
    by (simp_all add: totalSize_def totalItems_def totalSubDirs_def latestMtime_def)
  from acc(4) have "latestMtime sc 2 = Some (t2, sc) \<longleftrightarrow> rt \<le> t2 \<and> dt \<le> t2"
    by (auto simp: max_def split: if_splits)
  with sc(1,9,10) acc
  show "\<exists>sc. scenario rt dt t1 t2 = Some sc \<and>
         totalSize sc 2 = Some (150, sc) \<and> totalItems sc 2 = Some (3, sc) \<and>
         totalSubDirs sc 2 = Some (1, sc) \<and>
         latestMtime sc 2 = Some (max rt (max dt t2), sc) \<and>
         (latestMtime sc 2 = Some (t2, sc) \<longleftrightarrow> rt \<le> t2 \<and> dt \<le> t2) \<and>
         recalc_calls sc = [] \<and> (\<forall>y m. heap sc y = Some m \<longrightarrow> \<not> m_summaryDirty m)"
    by blast
qed

theorem insertChild_running_sums_witness:
  "routes built [(2, 4), (2, 5), (5, 7)] = Some [(4, 3), (5, 2), (7, 6)] \<and>
   top_down (reparent [(4, 3), (5, 2), (7, 6)] built) [4, 5, 7] \<and>
   below m_size (reparent [(4, 3), (5, 2), (7, 6)] built) [4, 5, 7] 2 = 150 \<and>
   below (\<lambda>_. 1) (reparent [(4, 3), (5, 2), (7, 6)] built) [4, 5, 7] 2 = 3 \<and>
   (\<exists>s'. insert_all built [(2, 4), (2, 5), (5, 7)] = Some s' \<and>
      totalSize s' 2 = Some (150, s') \<and> totalItems s' 2 = Some (3, s') \<and>
      map_option m_summaryDirty (heap s' 2) = Some False \<and> recalc_calls s' = []) \<and>
   (1 :: int) < 2 \<and>
   (\<exists>sc. scenario 0 0 1 2 = Some sc \<and>
      totalSize sc 2 = Some (150, sc) \<and> totalItems sc 2 = Some (3, sc) \<and>
      totalSubDirs sc 2 = Some (1, sc) \<and> latestMtime sc 2 = Some (2, sc) \<and>
      recalc_calls sc = [])"
proof -
  let ?ops = "[(2, 4), (2, 5), (5, 7)] :: (addr \<times> addr) list"
  let ?r = "[(4, 3), (5, 2), (7, 6)] :: (addr \<times> addr) list"
  note inst = insertChild_running_sums[of built ?ops ?r 1 2 0 0]
  from built_facts(5) obtain n where n: "heap built 2 = Some n" "isDirInfo n"
    "\<not> m_summaryDirty n" "m_totalSize n = 0" "m_totalItems n = 0" by blast
  have pre: "routes built ?ops = Some ?r \<and> distinct (map fst ?r) \<and>
      top_down (reparent ?r built) (map fst ?r)"
    using built_facts(1,2) by simp
  from inst pre obtain s' where s': "insert_all built ?ops = Some s'"
    "recalc_calls s' = recalc_calls built"
    and tot: "\<forall>x n. heap built x = Some n \<longrightarrow>
            (\<exists>n'. heap s' x = Some n' \<and> m_summaryDirty n' = m_summaryDirty n \<and>
               (\<not> m_summaryDirty n \<longrightarrow>
                  m_totalSize n' = m_totalSize n + below m_size (reparent ?r built) (map fst ?r) x \<and>
                  m_totalBlocks n' = m_totalBlocks n + below m_blocks (reparent ?r built) (map fst ?r) x \<and>
                  m_totalItems n' = m_totalItems n + below (\<lambda>_. 1) (reparent ?r built) (map fst ?r) x \<and>
                  (isDirInfo n \<longrightarrow>
                     totalSize s' x = Some (m_totalSize n', s') \<and>
                     totalBlocks s' x = Some (m_totalBlocks n', s') \<and>
                     totalItems s' x = Some (m_totalItems n', s'))))"
    by blast
  from tot[rule_format, OF n(1)] n(2,3) obtain n' where n': "heap s' 2 = Some n'"
    "m_summaryDirty n' = m_summaryDirty n"
    "m_totalSize n' = m_totalSize n + below m_size (reparent ?r built) (map fst ?r) 2"
    "m_totalItems n' = m_totalItems n + below (\<lambda>_. 1) (reparent ?r built) (map fst ?r) 2"
    "totalSize s' 2 = Some (m_totalSize n', s')" "totalItems s' 2 = Some (m_totalItems n', s')"
    by blast
  from n'(3,4) n(4,5) built_facts(3,4) have v: "m_totalSize n' = 150" "m_totalItems n' = 3"
    by simp_all
  from s' n' v n(3) built_facts(6)
  have 1: "\<exists>s'. insert_all built ?ops = Some s' \<and>
      totalSize s' 2 = Some (150, s') \<and> totalItems s' 2 = Some (3, s') \<and>
      map_option m_summaryDirty (heap s' 2) = Some False \<and> recalc_calls s' = []"
    by auto
  from inst have 2: "\<exists>sc. scenario 0 0 1 2 = Some sc \<and>
      totalSize sc 2 = Some (150, sc) \<and> totalItems sc 2 = Some (3, sc) \<and>
      totalSubDirs sc 2 = Some (1, sc) \<and> latestMtime sc 2 = Some (2, sc) \<and>
      recalc_calls sc = []"
    by auto
  from 1 2 built_facts(1-4) show ?thesis by simp
qed

lemma three_levels_facts:
  "\<exists>s n an. three_levels = Some s \<and> heap s 2 = Some n \<and> isDirInfo n \<and> m_size n = 0 \<and>
     heap s 5 = Some an \<and> isDirInfo an \<and> \<not> m_summaryDirty an \<and> m_totalSize an = 0 \<and>
     m_totalItems an = 1 \<and> FileInfoIterator s 2 = Some [5] \<and>
     is_tree s (Node 2 [Node 5 [Node 8 [Node 7 []]]]) \<and>
     subtree_size s (Node 2 [Node 5 [Node 8 [Node 7 []]]]) = 50"
  by (simp add: three_levels_def eval_defs insertChild.simps childAdded.simps items_def
      FileInfoIterator_def children_def follow_Some subtree_size_def field_def)

text \<open>\<^verbatim>\<open>recalc()\<close> on R takes the sums of A as they are cached.\<close>

lemma three_levels_recalc:
  "\<exists>s s' n'. three_levels = Some s \<and> recalc s 2 = Some s' \<and> heap s' 2 = Some n' \<and>
     isDirInfo n' \<and> \<not> m_summaryDirty n' \<and> m_totalSize n' = 0 \<and> m_totalItems n' = 2 \<and>
     is_tree s' (Node 2 [Node 5 [Node 8 [Node 7 []]]]) \<and>
     subtree_size s' (Node 2 [Node 5 [Node 8 [Node 7 []]]]) = 50"
proof -
  let ?t = "Node 2 [Node 5 [Node 8 [Node 7 []]]]"
  from three_levels_facts obtain s n an where s: "three_levels = Some s" "heap s 2 = Some n"
    "isDirInfo n" "m_size n = 0" "heap s 5 = Some an" "isDirInfo an" "\<not> m_summaryDirty an"
    "m_totalSize an = 0" "m_totalItems an = 1" "FileInfoIterator s 2 = Some [5]"
    "is_tree s ?t" "subtree_size s ?t = 50"
    by blast
  let ?s0 = "upd 2 reset_summary (s\<lparr>recalc_calls := recalc_calls s @ [2]\<rparr>)"
  let ?s1 = "upd 2 (absorb an) ?s0"
  let ?s' = "upd 2 (\<lambda>x. x\<lparr>m_summaryDirty := False\<rparr>) ?s1"
  have sk0: "same_skel s ?s0"
    by (rule same_skel_trans[OF same_skel_calls]) (rule same_skel_upd, simp)
  have sk: "same_skel s ?s'"
    by (rule same_skel_trans[OF sk0], rule same_skel_trans[of _ ?s1])
      (rule same_skel_upd, simp)+
  from s(2,3,10) have "items s 2 = Some [5]" by (simp add: items_def)
  then have "items ?s0 2 = Some [5]" by (simp add: same_skel_items[OF sk0])
  with s(2,3) have it: "FileInfoIterator ?s0 2 = Some [5]"
    by (simp add: items_def reset_summary_def)
  have a0: "heap ?s0 5 = Some an" "heap ?s0 2 = Some (reset_summary n)" using s(2,5) by simp_all
  from s(7) have st: "isDirInfo an \<longrightarrow> \<not> m_summaryDirty an" by simp
  have "exec (RecalcLoop 2 [5]) ?s0 = exec (RecalcLoop 2 []) ?s1"
    by (rule exec_RecalcLoop_step[OF exec_Accessor_settled[OF a0(1) st] a0(1) st refl a0(2)]) simp
  then have "exec (Recalc 2) s = Some (0, ?s')"
    by (simp add: exec_Recalc it exec_RecalcLoop_Nil del: heap_upd)
  then have r: "recalc s 2 = Some ?s'" by (simp add: recalc_def)
  let ?n' = "(absorb an (reset_summary n))\<lparr>m_summaryDirty := False\<rparr>"
  have h: "heap ?s' 2 = Some ?n'"
    using s(2) by simp
  have v: "isDirInfo ?n'" "\<not> m_summaryDirty ?n'" "m_totalSize ?n' = 0" "m_totalItems ?n' = 2"
    using s(3,4,6,8,9) by (simp_all add: absorb_def reset_summary_def summary_val_def)
  from s(11) have tr: "is_tree ?s' ?t" by (simp only: same_skel_is_tree[OF sk])
  from s(12) have sz: "subtree_size ?s' ?t = 50" by (simp only: same_skel_specs[OF sk])
  from s(1) r h v tr sz show ?thesis by blast
qed

section \<open>The objects an accessor recalculates, whatever the cached sums\<close>




section \<open>Summaries after a deletion: the claims\<close>

text \<open>
  C1 as stated fails. After F has been inserted into B, B into A and A into R (each directory
  constructed without a parent), A has a clean summary that lacks the size of F. \<^verbatim>\<open>recalc()\<close>
  on R takes the cached sums of A: R is left with a clean summary, \<^verbatim>\<open>totalSize()\<close> 0 and
  \<^verbatim>\<open>totalItems()\<close> 2, over a subtree of size 50 with 3 entries.
\<close>

theorem recalc_cached_child_counterexample:
  "((three_levels \<bind> (\<lambda>s. recalc s 2)) \<bind> (\<lambda>s. map_option m_summaryDirty (heap s 2))) = Some False \<and>
   map_option fst ((three_levels \<bind> (\<lambda>s. recalc s 2)) \<bind> (\<lambda>s. totalSize s 2)) = Some 0 \<and>
   map_option fst ((three_levels \<bind> (\<lambda>s. recalc s 2)) \<bind> (\<lambda>s. totalItems s 2)) = Some 2 \<and>
   map_option (\<lambda>s. is_tree s (Node 2 [Node 5 [Node 8 [Node 7 []]]]))
     (three_levels \<bind> (\<lambda>s. recalc s 2)) = Some True \<and>
   map_option (\<lambda>s. subtree_size s (Node 2 [Node 5 [Node 8 [Node 7 []]]]))
     (three_levels \<bind> (\<lambda>s. recalc s 2)) = Some 50 \<and>
   subtree_items (Node 2 [Node 5 [Node 8 [Node 7 []]]]) = 3"
proof -
  let ?t = "Node 2 [Node 5 [Node 8 [Node 7 []]]]"
  from three_levels_recalc obtain s s' n' where s: "three_levels = Some s"
    "recalc s 2 = Some s'" "heap s' 2 = Some n'" "isDirInfo n'" "\<not> m_summaryDirty n'"
    "m_totalSize n' = 0" "m_totalItems n' = 2" "is_tree s' ?t" "subtree_size s' ?t = 50"
    by blast
  from exec_Accessor_clean[OF s(3,4,5)] s(6,7)
  have acc: "totalSize s' 2 = Some (0, s')" "totalItems s' 2 = Some (2, s')"
    by (simp_all add: totalSize_def totalItems_def)
  from s(3,5,8,9) acc show ?thesis unfolding s(1) by (simp add: s(2) subtree_items_def)
qed




end
